theory Spec2Isabelle
  imports Main "HOL-Library.Word"
begin

section \<open>The fixed-size cache queue of cachequeue.hpp\<close>

text \<open>
  \<^verbatim>\<open>template<typename ValueType, size_t CacheSize> class CacheQueue\<close> keeps a
  \<^verbatim>\<open>std::array<ValueType, CacheSize>\<close> and two \<^verbatim>\<open>size_t\<close> fields. The array is a
  list whose length is \<open>CacheSize\<close>; \<^verbatim>\<open>size_t\<close> is a 64-bit word, so that \<open>+\<close>, \<open>-\<close>
  wrap and \<open>mod\<close>, \<open>min\<close>, \<open>=\<close> are the unsigned ones of C++.
\<close>

type_synonym size_t = "64 word"

record 'a CacheQueue =
  m_CircleQ :: "'a list"
  m_Head :: size_t
  m_CurrSize :: size_t

text \<open>
  \<^verbatim>\<open>m_CircleQ[k]\<close> read and written through \<^verbatim>\<open>std::array::operator[]\<close>. An index
  outside the array is undefined behaviour in C++; the slot functions below name
  every index the class computes, and they are shown to lie inside the array.
\<close>

definition array_get :: "'a list \<Rightarrow> size_t \<Rightarrow> 'a" where
  "array_get a k = a ! unat k"

definition array_set :: "'a list \<Rightarrow> size_t \<Rightarrow> 'a \<Rightarrow> 'a list" where
  "array_set a k v = a[unat k := v]"

text \<open>The constructor: value-initialised storage (every slot \<open>d = ValueType()\<close>), head 0, size 0.\<close>

definition CacheQueue_new :: "nat \<Rightarrow> 'a \<Rightarrow> 'a CacheQueue" where
  "CacheQueue_new CacheSize d =
     \<lparr>m_CircleQ = replicate CacheSize d, m_Head = 0, m_CurrSize = 0\<rparr>"

definition Capacity :: "'a CacheQueue \<Rightarrow> size_t" where
  "Capacity q = of_nat (length (m_CircleQ q))"

text \<open>
  Modelled from the spec: \<^verbatim>\<open>Length()\<close> returns \<^verbatim>\<open>Size()\<close>, and the header declares
  no \<^verbatim>\<open>Size()\<close>. The spec says that \<open>length()\<close> is the current element count, the
  stored \<open>length\<close> field of its data model, which is \<^verbatim>\<open>m_CurrSize\<close> here.
\<close>

definition Size :: "'a CacheQueue \<Rightarrow> size_t" where
  "Size q = m_CurrSize q"

definition Length :: "'a CacheQueue \<Rightarrow> size_t" where
  "Length q = Size q"

definition Empty :: "'a CacheQueue \<Rightarrow> bool" where
  "Empty q \<longleftrightarrow> m_CurrSize q = 0"

definition Full :: "'a CacheQueue \<Rightarrow> bool" where
  "Full q \<longleftrightarrow> m_CurrSize q = Capacity q"

subsection \<open>Access to the two ends\<close>

definition Head_slot :: "'a CacheQueue \<Rightarrow> size_t" where
  "Head_slot q = m_Head q"

definition Head :: "'a CacheQueue \<Rightarrow> 'a" where
  "Head q = array_get (m_CircleQ q) (Head_slot q)"

definition Back_slot :: "'a CacheQueue \<Rightarrow> size_t" where
  "Back_slot q = (m_Head q + Length q + Capacity q - 1) mod Capacity q"

definition Back :: "'a CacheQueue \<Rightarrow> 'a" where
  "Back q = array_get (m_CircleQ q) (Back_slot q)"

subsection \<open>Push and pop\<close>

text \<open>
  The statements of each branch run in the order of the source: in the second branch of
  \<^verbatim>\<open>PushHead\<close> the store uses the head that was just moved; in the full branch of
  \<^verbatim>\<open>PushBack\<close> the store comes before the head moves.
\<close>

definition PushHead_slot :: "'a CacheQueue \<Rightarrow> size_t" where
  "PushHead_slot q =
     (if Empty q then 0 else (m_Head q + Capacity q - 1) mod Capacity q)"

definition PushHead :: "'a \<Rightarrow> 'a CacheQueue \<Rightarrow> 'a CacheQueue" where
  "PushHead u q =
     (if Empty q then
        (let q1 = q\<lparr>m_Head := 0\<rparr>;
             q2 = q1\<lparr>m_CircleQ := array_set (m_CircleQ q1) 0 u\<rparr>
         in q2\<lparr>m_CurrSize := 1\<rparr>)
      else
        (let q1 = q\<lparr>m_Head := (m_Head q + Capacity q - 1) mod Capacity q\<rparr>;
             q2 = q1\<lparr>m_CircleQ := array_set (m_CircleQ q1) (m_Head q1) u\<rparr>
         in q2\<lparr>m_CurrSize := min (m_CurrSize q2 + 1) (Capacity q2)\<rparr>))"

definition PushBack_slot :: "'a CacheQueue \<Rightarrow> size_t" where
  "PushBack_slot q =
     (if Empty q then 0
      else if Full q then m_Head q
      else (m_Head q + Length q) mod Capacity q)"

definition PushBack :: "'a \<Rightarrow> 'a CacheQueue \<Rightarrow> 'a CacheQueue" where
  "PushBack u q =
     (if Empty q then
        (let q1 = q\<lparr>m_Head := 0\<rparr>;
             q2 = q1\<lparr>m_CircleQ := array_set (m_CircleQ q1) 0 u\<rparr>
         in q2\<lparr>m_CurrSize := 1\<rparr>)
      else if Full q then
        (let q1 = q\<lparr>m_CircleQ := array_set (m_CircleQ q) (m_Head q) u\<rparr>
         in q1\<lparr>m_Head := (m_Head q1 + 1) mod Capacity q1\<rparr>)
      else
        (let q1 = q\<lparr>m_CircleQ :=
                      array_set (m_CircleQ q) ((m_Head q + Length q) mod Capacity q) u\<rparr>
         in q1\<lparr>m_CurrSize := min (m_CurrSize q1 + 1) (Capacity q1)\<rparr>))"

definition PopHead :: "'a CacheQueue \<Rightarrow> 'a CacheQueue" where
  "PopHead q =
     (if \<not> Empty q then
        (let q1 = q\<lparr>m_Head := (m_Head q + 1) mod Capacity q\<rparr>
         in q1\<lparr>m_CurrSize := m_CurrSize q1 - 1\<rparr>)
      else q)"

definition PopBack :: "'a CacheQueue \<Rightarrow> 'a CacheQueue" where
  "PopBack q = (if \<not> Empty q then q\<lparr>m_CurrSize := m_CurrSize q - 1\<rparr> else q)"

definition Clear :: "'a CacheQueue \<Rightarrow> 'a CacheQueue" where
  "Clear q = q\<lparr>m_Head := 0, m_CurrSize := 0\<rparr>"

subsection \<open>Reset\<close>

text \<open>
  \<^verbatim>\<open>Reset()\<close> is the single statement
  \<^verbatim>\<open>std::rotate(m_CircleQ.begin(), m_CircleQ.end(), m_CircleQ.begin() + m_Head)\<close>.
  The library function is not part of the header: it is the parameter \<open>std_rotate\<close>,
  applied to the array and to the three iterators as offsets from \<^verbatim>\<open>begin()\<close>, in the
  order the call passes them (first, middle, last). Whatever it returns is the new
  storage; the statement assigns to no other field. (\<^verbatim>\<open>std::rotate\<close> asks for
  \<open>first \<le> middle \<le> last\<close>; the call passes \<^verbatim>\<open>end()\<close> as middle and \<^verbatim>\<open>begin() + m_Head\<close> as
  last, so no property of the library function is assumed here.)
\<close>

definition Reset ::
  "('a list \<Rightarrow> nat \<Rightarrow> nat \<Rightarrow> nat \<Rightarrow> 'a list) \<Rightarrow> 'a CacheQueue \<Rightarrow> 'a CacheQueue" where
  "Reset std_rotate q =
     q\<lparr>m_CircleQ :=
         std_rotate (m_CircleQ q) 0 (length (m_CircleQ q)) (0 + unat (m_Head q))\<rparr>"

subsection \<open>Rotate\<close>

text \<open>
  Each of the two \<^verbatim>\<open>for\<close> statements of \<^verbatim>\<open>Rotate\<close> runs its body \<open>nCount\<close> times; each is
  a recursion on the number of rounds left. \<^verbatim>\<open>nRotate\<close> is a C++ \<^verbatim>\<open>int\<close>; it is an \<open>int\<close> here, and
  \<^verbatim>\<open>std::abs\<close> is \<open>abs\<close>, which agrees with C++ on every \<^verbatim>\<open>int\<close> whose absolute
  value is an \<^verbatim>\<open>int\<close> (all but the least one, where C++ leaves \<^verbatim>\<open>std::abs\<close> undefined).
\<close>

fun Rotate_forward :: "nat \<Rightarrow> 'a CacheQueue \<Rightarrow> 'a CacheQueue" where
  "Rotate_forward 0 q = q"
| "Rotate_forward (Suc n) q =
     Rotate_forward n (let stHead = Head q; q1 = PopHead q in PushBack stHead q1)"

fun Rotate_backward :: "nat \<Rightarrow> 'a CacheQueue \<Rightarrow> 'a CacheQueue" where
  "Rotate_backward 0 q = q"
| "Rotate_backward (Suc n) q =
     Rotate_backward n (let stBack = Back q; q1 = PopBack q in PushHead stBack q1)"

definition Rotate :: "int \<Rightarrow> 'a CacheQueue \<Rightarrow> 'a CacheQueue" where
  "Rotate nRotate q =
     (if \<not> Empty q then
        (let nCount = \<bar>nRotate\<bar> in
         if nCount \<noteq> 0 then
           (if nRotate > 0 then Rotate_forward (nat nCount) q
            else Rotate_backward (nat nCount) q)
         else q)
      else q)"

subsection \<open>Indexing and offsets\<close>

definition index_slot :: "'a CacheQueue \<Rightarrow> size_t \<Rightarrow> size_t" where
  "index_slot q nIndex = (m_Head q + nIndex + Capacity q) mod Capacity q"

definition index :: "'a CacheQueue \<Rightarrow> size_t \<Rightarrow> 'a" where
  "index q nIndex = array_get (m_CircleQ q) (index_slot q nIndex)"

definition HeadOff :: "'a CacheQueue \<Rightarrow> size_t" where
  "HeadOff q = m_Head q"

definition BackOff :: "'a CacheQueue \<Rightarrow> size_t" where
  "BackOff q = (m_Head q + Length q - 1 + Capacity q) mod Capacity q"

subsection \<open>Sequences of operations\<close>

datatype 'a operation =
  OpPushHead 'a | OpPushBack 'a | OpPopHead | OpPopBack | OpClear | OpRotate int

fun apply_operation :: "'a operation \<Rightarrow> 'a CacheQueue \<Rightarrow> 'a CacheQueue" where
  "apply_operation (OpPushHead u) q = PushHead u q"
| "apply_operation (OpPushBack u) q = PushBack u q"
| "apply_operation OpPopHead q = PopHead q"
| "apply_operation OpPopBack q = PopBack q"
| "apply_operation OpClear q = Clear q"
| "apply_operation (OpRotate k) q = Rotate k q"

fun run :: "'a operation list \<Rightarrow> 'a CacheQueue \<Rightarrow> 'a CacheQueue" where
  "run [] q = q"
| "run (x # xs) q = run xs (apply_operation x q)"

subsection \<open>Well-formed states and the logical content\<close>

text \<open>
  \<open>cq_inv\<close> is the invariant of the class: the capacity is a positive \<^verbatim>\<open>size_t\<close>, the head
  is a slot of the array and the size is at most the capacity.
\<close>

definition cq_inv :: "'a CacheQueue \<Rightarrow> bool" where
  "cq_inv q \<longleftrightarrow>
     0 < length (m_CircleQ q) \<and> length (m_CircleQ q) < 2 ^ 64 \<and>
     unat (m_Head q) < length (m_CircleQ q) \<and>
     unat (m_CurrSize q) \<le> length (m_CircleQ q)"

text \<open>
  The class adds before it reduces: \<^verbatim>\<open>m_Head + Length() + Capacity() - 1\<close> in \<^verbatim>\<open>Back\<close>,
  \<^verbatim>\<open>m_Head + nIndex + Capacity()\<close> in \<^verbatim>\<open>operator[]\<close>. With head and length bounded by the
  capacity \<open>N\<close>, these \<^verbatim>\<open>size_t\<close> sums stay below \<open>2 ^ 64\<close> exactly when \<open>3 * N\<close> does not
  exceed it. \<open>cq_wf\<close> adds this bound to the invariant. It holds of every capacity whose
  array fits an address space: an array of more than \<open>2 ^ 64 div 3\<close> slots takes more than
  six exbibytes.
\<close>

definition cq_wf :: "'a CacheQueue \<Rightarrow> bool" where
  "cq_wf q \<longleftrightarrow> cq_inv q \<and> 3 * length (m_CircleQ q) \<le> 2 ^ 64"

text \<open>
  The logical content, front to back: logical position \<open>i\<close> is slot \<open>(head + i) mod N\<close>.
  \<open>ring_content st h s\<close> reads \<open>s\<close> slots of the array \<open>st\<close> from slot \<open>h\<close> on, wrapping
  at the end of the array. It is the list that the class itself shows: its first element
  is \<^verbatim>\<open>Head()\<close>, its last is \<^verbatim>\<open>Back()\<close>, its \<open>i\<close>-th is \<^verbatim>\<open>operator[](i)\<close> (lemmas
  \<open>Head_content\<close>, \<open>Back_content\<close>, \<open>index_content\<close>).
\<close>

definition ring_content :: "'a list \<Rightarrow> nat \<Rightarrow> nat \<Rightarrow> 'a list" where
  "ring_content st h s = map (\<lambda>i. st ! ((h + i) mod length st)) [0 ..< s]"

definition content :: "'a CacheQueue \<Rightarrow> 'a list" where
  "content q = ring_content (m_CircleQ q) (unat (m_Head q)) (unat (m_CurrSize q))"

subsection \<open>The element count in the words of the spec\<close>

text \<open>
  The spec calls the length the current element count. Counted over the operations
  performed: a push adds one element, except on a full buffer, where the pushed element
  takes the place of the one it overwrites; a pop removes one element, except on an empty
  buffer; \<open>clear\<close> removes all of them; a rotation removes none.
\<close>

fun count_step :: "nat \<Rightarrow> 'a operation \<Rightarrow> nat \<Rightarrow> nat" where
  "count_step N (OpPushHead u) c = (if c = N then N else c + 1)"
| "count_step N (OpPushBack u) c = (if c = N then N else c + 1)"
| "count_step N OpPopHead c = (if c = 0 then 0 else c - 1)"
| "count_step N OpPopBack c = (if c = 0 then 0 else c - 1)"
| "count_step N OpClear c = 0"
| "count_step N (OpRotate k) c = c"

fun element_count :: "nat \<Rightarrow> 'a operation list \<Rightarrow> nat \<Rightarrow> nat" where
  "element_count N [] c = c"
| "element_count N (x # xs) c = element_count N xs (count_step N x c)"

section \<open>Reading a wrapped window of an array\<close>

lemma length_ring_content: "length (ring_content st h s) = s"
  by (simp add: ring_content_def)

lemma nth_ring_content: "i < s \<Longrightarrow> ring_content st h s ! i = st ! ((h + i) mod length st)"
  by (simp add: ring_content_def)

lemma mod_add_wrap:
  fixes N :: nat
  assumes "k < N"
  shows "(h + k) mod N = (if h mod N + k < N then h mod N + k else h mod N + k - N)"
proof -
  have step: "(h + k) mod N = (h mod N + k) mod N"
    by (simp add: mod_add_left_eq)
  have small: "h mod N < N"
    using assms by simp
  show ?thesis
  proof (cases "h mod N + k < N")
    case True
    then show ?thesis
      using step by simp
  next
    case False
    then have "(h mod N + k) mod N = (h mod N + k - N) mod N"
      by (simp add: le_mod_geq)
    moreover have "h mod N + k - N < N"
      using small assms by arith
    ultimately show ?thesis
      using step False by simp
  qed
qed

lemma mod_add_neq:
  fixes N :: nat
  assumes "i < N" "j < N" "i \<noteq> j"
  shows "(h + i) mod N \<noteq> (h + j) mod N"
proof -
  have "h mod N < N"
    using assms by simp
  then show ?thesis
    using assms by (simp add: mod_add_wrap) arith
qed

lemma mod_pred_succ:
  fixes N :: nat
  assumes "0 < N"
  shows "((h + N - 1) mod N + Suc i) mod N = (h + i) mod N"
proof -
  have "((h + N - 1) mod N + Suc i) mod N = (h + N - 1 + Suc i) mod N"
    by (rule mod_add_left_eq)
  also have "h + N - 1 + Suc i = h + i + N"
    using assms by simp
  finally show ?thesis
    by simp
qed

lemma mod_succ_add:
  fixes N :: nat
  shows "((h + 1) mod N + i) mod N = (h + Suc i) mod N"
proof -
  have "((h + 1) mod N + i) mod N = (h + 1 + i) mod N"
    by (rule mod_add_left_eq)
  then show ?thesis
    by simp
qed

lemma ring_push_back:
  assumes "s < length st"
  shows "ring_content (st[(h + s) mod length st := u]) h (Suc s) = ring_content st h s @ [u]"
proof (rule nth_equalityI)
  show "length (ring_content (st[(h + s) mod length st := u]) h (Suc s)) = length (ring_content st h s @ [u])"
    by (simp add: length_ring_content)
next
  fix i
  assume "i < length (ring_content (st[(h + s) mod length st := u]) h (Suc s))"
  then have i: "i < Suc s"
    by (simp add: length_ring_content)
  show "ring_content (st[(h + s) mod length st := u]) h (Suc s) ! i = (ring_content st h s @ [u]) ! i"
  proof (cases "i = s")
    case True
    moreover have "0 < length st"
      using assms by arith
    then have "(h + s) mod length st < length st"
      by simp
    ultimately show ?thesis
      by (simp add: nth_ring_content nth_append length_ring_content)
  next
    case False
    with i have "i < s" by simp
    then have "(h + i) mod length st \<noteq> (h + s) mod length st"
      using assms by (intro mod_add_neq) simp_all
    then show ?thesis
      using \<open>i < s\<close> assms by (simp add: nth_ring_content nth_append length_ring_content)
  qed
qed

lemma ring_push_back_full:
  assumes "h < length st" and h': "h' = (h + 1) mod length st"
  shows "ring_content (st[h := u]) h' (length st) = tl (ring_content st h (length st)) @ [u]"
proof (rule nth_equalityI)
  show "length (ring_content (st[h := u]) h' (length st)) = length (tl (ring_content st h (length st)) @ [u])"
    using assms by (simp add: length_ring_content)
next
  fix i
  assume "i < length (ring_content (st[h := u]) h' (length st))"
  then have i: "i < length st"
    by (simp add: length_ring_content)
  have idx: "(h' + i) mod length st = (h + Suc i) mod length st"
    unfolding h' by (rule mod_succ_add)
  have lhs: "ring_content (st[h := u]) h' (length st) ! i = st[h := u] ! ((h + Suc i) mod length st)"
    using i idx by (simp only: nth_ring_content length_list_update)
  show "ring_content (st[h := u]) h' (length st) ! i = (tl (ring_content st h (length st)) @ [u]) ! i"
  proof (cases "Suc i = length st")
    case True
    then have "(h + Suc i) mod length st = h"
      using assms by simp
    moreover have "length (tl (ring_content st h (length st))) = i"
      using True by (simp add: length_ring_content)
    then have "(tl (ring_content st h (length st)) @ [u]) ! i = u"
      by (simp add: nth_append)
    ultimately show ?thesis
      using assms lhs by simp
  next
    case False
    with i have si: "Suc i < length st" by simp
    have "(h + Suc i) mod length st \<noteq> (h + 0) mod length st"
      using si assms(1) by (intro mod_add_neq) auto
    then have ne: "(h + Suc i) mod length st \<noteq> h"
      using assms by simp
    have "i < length (tl (ring_content st h (length st)))"
      using si by (simp add: length_ring_content)
    then have "(tl (ring_content st h (length st)) @ [u]) ! i = tl (ring_content st h (length st)) ! i"
      by (simp add: nth_append)
    also have "\<dots> = st ! ((h + Suc i) mod length st)"
      using si by (simp add: length_ring_content nth_tl nth_ring_content)
    finally have "(tl (ring_content st h (length st)) @ [u]) ! i = st ! ((h + Suc i) mod length st)" .
    then show ?thesis
      using ne lhs by simp
  qed
qed

lemma ring_pop_head:
  assumes h': "h' = (h + 1) mod length st"
  shows "ring_content st h' (s - 1) = tl (ring_content st h s)"
proof (rule nth_equalityI)
  show "length (ring_content st h' (s - 1)) = length (tl (ring_content st h s))"
    by (simp add: length_ring_content)
next
  fix i
  assume "i < length (ring_content st h' (s - 1))"
  then have i: "Suc i < s"
    by (simp add: length_ring_content)
  have idx: "(h' + i) mod length st = (h + Suc i) mod length st"
    unfolding h' by (rule mod_succ_add)
  have "ring_content st h' (s - 1) ! i = st ! ((h + Suc i) mod length st)"
    using i idx by (simp add: nth_ring_content)
  moreover have "tl (ring_content st h s) ! i = st ! ((h + Suc i) mod length st)"
    using i by (simp add: nth_tl length_ring_content nth_ring_content)
  ultimately show "ring_content st h' (s - 1) ! i = tl (ring_content st h s) ! i"
    by simp
qed

lemma ring_pop_back: "ring_content st h (s - 1) = butlast (ring_content st h s)"
  by (rule nth_equalityI) (simp_all add: length_ring_content nth_ring_content nth_butlast)

lemma ring_push_head_nth:
  assumes "0 < length st" and "Suc j < length st"
    and h': "h' = (h + length st - 1) mod length st"
  shows "st[h' := u] ! ((h' + Suc j) mod length st) = st ! ((h + j) mod length st)"
proof -
  have idx: "(h' + Suc j) mod length st = (h + j) mod length st"
    unfolding h' using assms(1) by (rule mod_pred_succ)
  have "(h + j) mod length st \<noteq> (h + (length st - 1)) mod length st"
    using assms by (intro mod_add_neq) simp_all
  then have "(h + j) mod length st \<noteq> h'"
    using assms by simp
  then show ?thesis
    unfolding idx by simp
qed

lemma ring_push_head:
  assumes "0 < length st" "s < length st"
    and h': "h' = (h + length st - 1) mod length st"
  shows "ring_content (st[h' := u]) h' (Suc s) = u # ring_content st h s"
proof (rule nth_equalityI)
  show "length (ring_content (st[h' := u]) h' (Suc s)) = length (u # ring_content st h s)"
    by (simp add: length_ring_content)
next
  fix i
  assume "i < length (ring_content (st[h' := u]) h' (Suc s))"
  then have i: "i < Suc s"
    by (simp add: length_ring_content)
  have h'_less: "h' < length st"
    using assms by simp
  show "ring_content (st[h' := u]) h' (Suc s) ! i = (u # ring_content st h s) ! i"
  proof (cases i)
    case 0
    then show ?thesis
      using h'_less by (simp add: nth_ring_content)
  next
    case (Suc j)
    with i have j: "j < s" by simp
    have "ring_content (st[h' := u]) h' (Suc s) ! Suc j = st[h' := u] ! ((h' + Suc j) mod length st)"
      using j by (simp only: nth_ring_content length_list_update Suc_less_eq)
    also have "\<dots> = st ! ((h + j) mod length st)"
      using assms j by (intro ring_push_head_nth) simp_all
    finally show ?thesis
      using Suc j by (simp add: nth_ring_content)
  qed
qed

lemma ring_push_head_full:
  assumes "0 < length st"
    and h': "h' = (h + length st - 1) mod length st"
  shows "ring_content (st[h' := u]) h' (length st) = u # butlast (ring_content st h (length st))"
proof (rule nth_equalityI)
  show "length (ring_content (st[h' := u]) h' (length st)) = length (u # butlast (ring_content st h (length st)))"
    using assms by (simp add: length_ring_content)
next
  fix i
  assume "i < length (ring_content (st[h' := u]) h' (length st))"
  then have i: "i < length st"
    by (simp add: length_ring_content)
  have h'_less: "h' < length st"
    using assms by simp
  show "ring_content (st[h' := u]) h' (length st) ! i = (u # butlast (ring_content st h (length st))) ! i"
  proof (cases i)
    case 0
    then show ?thesis
      using h'_less assms(1) by (simp add: nth_ring_content)
  next
    case (Suc j)
    with i have j: "Suc j < length st" by simp
    have "ring_content (st[h' := u]) h' (length st) ! Suc j = st[h' := u] ! ((h' + Suc j) mod length st)"
      using j by (simp only: nth_ring_content length_list_update)
    also have "\<dots> = st ! ((h + j) mod length st)"
      using assms j by (intro ring_push_head_nth) simp_all
    finally show ?thesis
      using Suc j by (simp add: nth_ring_content nth_butlast length_ring_content)
  qed
qed

lemma ring_singleton: "0 < length st \<Longrightarrow> ring_content (st[0 := u]) 0 (Suc 0) = [u]"
  by (simp add: ring_content_def)

section \<open>Words as natural numbers\<close>

lemma unat_Capacity:
  "length (m_CircleQ q) < 2 ^ 64 \<Longrightarrow> unat (Capacity q) = length (m_CircleQ q)"
  by (simp add: Capacity_def unat_of_nat)

lemma Empty_unat: "Empty q \<longleftrightarrow> unat (m_CurrSize q) = 0"
  by (simp add: Empty_def unat_eq_0)

lemma Full_unat:
  assumes "length (m_CircleQ q) < 2 ^ 64"
  shows "Full q \<longleftrightarrow> unat (m_CurrSize q) = length (m_CircleQ q)"
proof -
  have "Full q \<longleftrightarrow> unat (m_CurrSize q) = unat (Capacity q)"
    unfolding Full_def by (rule word_unat_eq_iff)
  then show ?thesis
    using assms by (simp add: unat_Capacity)
qed

lemma unat_mod_Capacity:
  "length (m_CircleQ q) < 2 ^ 64 \<Longrightarrow> unat (x mod Capacity q) = unat x mod length (m_CircleQ q)"
  by (simp add: unat_mod unat_Capacity)

lemma unat_plus_small:
  fixes a b :: size_t
  shows "unat a + unat b < 2 ^ 64 \<Longrightarrow> unat (a + b) = unat a + unat b"
  using unat_add_lem [of a b] by simp

lemma unat_succ_small:
  fixes a :: size_t
  shows "unat a + 1 < 2 ^ 64 \<Longrightarrow> unat (a + 1) = unat a + 1"
  using unat_plus_small [of a 1] by simp

lemma unat_pred:
  fixes a :: size_t
  shows "unat a \<noteq> 0 \<Longrightarrow> unat (a - 1) = unat a - 1"
  by (simp add: unat_minus_one unat_eq_0)

lemma unat_min:
  fixes a b :: size_t
  shows "unat (min a b) = min (unat a) (unat b)"
  by (simp add: min_def word_le_nat_alt)

subsection \<open>The capacity never changes\<close>

lemma length_array_set [simp]: "length (array_set a k v) = length a"
  by (simp add: array_set_def)

lemma array_set_eq_Nil [simp]: "array_set a k v = [] \<longleftrightarrow> a = []"
  by (simp add: array_set_def)

lemma Capacity_update [simp]:
  "Capacity (q\<lparr>m_Head := h\<rparr>) = Capacity q"
  "Capacity (q\<lparr>m_CurrSize := s\<rparr>) = Capacity q"
  "Capacity (q\<lparr>m_CircleQ := array_set (m_CircleQ q) k v\<rparr>) = Capacity q"
  by (simp_all add: Capacity_def)

lemma length_PushHead [simp]: "length (m_CircleQ (PushHead u q)) = length (m_CircleQ q)"
  by (simp add: PushHead_def Let_def)

lemma length_PushBack [simp]: "length (m_CircleQ (PushBack u q)) = length (m_CircleQ q)"
  by (simp add: PushBack_def Let_def)

lemma length_PopHead [simp]: "length (m_CircleQ (PopHead q)) = length (m_CircleQ q)"
  by (simp add: PopHead_def Let_def)

lemma length_PopBack [simp]: "length (m_CircleQ (PopBack q)) = length (m_CircleQ q)"
  by (simp add: PopBack_def)

lemma length_Clear [simp]: "length (m_CircleQ (Clear q)) = length (m_CircleQ q)"
  by (simp add: Clear_def)

lemma length_Rotate_forward [simp]: "length (m_CircleQ (Rotate_forward n q)) = length (m_CircleQ q)"
  by (induction n arbitrary: q) (simp_all add: Let_def)

lemma length_Rotate_backward [simp]: "length (m_CircleQ (Rotate_backward n q)) = length (m_CircleQ q)"
  by (induction n arbitrary: q) (simp_all add: Let_def)

lemma length_Rotate [simp]: "length (m_CircleQ (Rotate k q)) = length (m_CircleQ q)"
  by (simp add: Rotate_def Let_def)

subsection \<open>The fields after each operation, read as natural numbers\<close>

lemma storage_PushHead: "m_CircleQ (PushHead u q) = (m_CircleQ q)[unat (PushHead_slot q) := u]"
  by (simp add: PushHead_def PushHead_slot_def Let_def array_set_def)

lemma storage_PushBack: "m_CircleQ (PushBack u q) = (m_CircleQ q)[unat (PushBack_slot q) := u]"
  by (simp add: PushBack_def PushBack_slot_def Let_def array_set_def)

lemma head_PushHead: "m_Head (PushHead u q) = PushHead_slot q"
  by (simp add: PushHead_def PushHead_slot_def Let_def)

lemma unat_PushHead_slot:
  assumes "cq_inv q" "2 * length (m_CircleQ q) \<le> 2 ^ 64"
  shows "unat (PushHead_slot q) =
    (if unat (m_CurrSize q) = 0 then 0
     else (unat (m_Head q) + length (m_CircleQ q) - 1) mod length (m_CircleQ q))"
proof -
  have N: "length (m_CircleQ q) < 2 ^ 64" "0 < length (m_CircleQ q)"
    and h: "unat (m_Head q) < length (m_CircleQ q)"
    using assms by (simp_all add: cq_inv_def)
  have "unat (m_Head q) + unat (Capacity q) < 2 ^ 64"
    using N h assms(2) by (simp add: unat_Capacity)
  then have "unat (m_Head q + Capacity q) = unat (m_Head q) + length (m_CircleQ q)"
    using N by (simp add: unat_plus_small unat_Capacity)
  then have "unat (m_Head q + Capacity q - 1) = unat (m_Head q) + length (m_CircleQ q) - 1"
    using N by (simp add: unat_pred)
  then show ?thesis
    using N by (simp add: PushHead_slot_def Empty_unat unat_mod_Capacity)
qed

lemma unat_size_succ:
  assumes "cq_inv q" "2 * length (m_CircleQ q) \<le> 2 ^ 64"
  shows "unat (min (m_CurrSize q + 1) (Capacity q)) =
    (if unat (m_CurrSize q) = length (m_CircleQ q) then length (m_CircleQ q)
     else unat (m_CurrSize q) + 1)"
proof -
  have N: "length (m_CircleQ q) < 2 ^ 64" "0 < length (m_CircleQ q)"
    and s: "unat (m_CurrSize q) \<le> length (m_CircleQ q)"
    using assms by (simp_all add: cq_inv_def)
  have "unat (m_CurrSize q) + 1 < 2 ^ 64"
    using N s assms(2) by simp
  then have "unat (m_CurrSize q + 1) = unat (m_CurrSize q) + 1"
    by (rule unat_succ_small)
  then show ?thesis
    using N s by (simp add: unat_min unat_Capacity)
qed

lemma size_PushHead:
  assumes "cq_inv q" "2 * length (m_CircleQ q) \<le> 2 ^ 64"
  shows "unat (m_CurrSize (PushHead u q)) =
    (if unat (m_CurrSize q) = length (m_CircleQ q) then length (m_CircleQ q)
     else unat (m_CurrSize q) + 1)"
proof (cases "Empty q")
  case True
  moreover have "0 < length (m_CircleQ q)"
    using assms by (simp add: cq_inv_def)
  ultimately show ?thesis
    by (simp add: PushHead_def Let_def Empty_unat)
next
  case False
  have "m_CurrSize (PushHead u q) = min (m_CurrSize q + 1) (Capacity q)"
    using False by (simp add: PushHead_def Let_def)
  then show ?thesis
    using assms by (simp add: unat_size_succ)
qed

lemma unat_PushBack_slot:
  assumes "cq_inv q" "2 * length (m_CircleQ q) \<le> 2 ^ 64"
  shows "unat (PushBack_slot q) =
    (if unat (m_CurrSize q) = 0 then 0
     else if unat (m_CurrSize q) = length (m_CircleQ q) then unat (m_Head q)
     else (unat (m_Head q) + unat (m_CurrSize q)) mod length (m_CircleQ q))"
proof -
  have N: "length (m_CircleQ q) < 2 ^ 64" "0 < length (m_CircleQ q)"
    and h: "unat (m_Head q) < length (m_CircleQ q)"
    and s: "unat (m_CurrSize q) \<le> length (m_CircleQ q)"
    using assms by (simp_all add: cq_inv_def)
  have "unat (m_Head q) + unat (m_CurrSize q) < 2 ^ 64"
    using N h s assms(2) by simp
  then have "unat (m_Head q + m_CurrSize q) = unat (m_Head q) + unat (m_CurrSize q)"
    by (rule unat_plus_small)
  then show ?thesis
    using N by (simp add: PushBack_slot_def Empty_unat Full_unat unat_mod_Capacity Length_def Size_def)
qed

lemma unat_head_succ:
  assumes "cq_inv q"
  shows "unat ((m_Head q + 1) mod Capacity q) = (unat (m_Head q) + 1) mod length (m_CircleQ q)"
proof -
  have N: "length (m_CircleQ q) < 2 ^ 64" "0 < length (m_CircleQ q)"
    and h: "unat (m_Head q) < length (m_CircleQ q)"
    using assms by (simp_all add: cq_inv_def)
  have "unat (m_Head q) + 1 < 2 ^ 64"
    using N h by simp
  then have "unat (m_Head q + 1) = unat (m_Head q) + 1"
    by (rule unat_succ_small)
  then show ?thesis
    using N by (simp add: unat_mod_Capacity)
qed

lemma head_PushBack:
  assumes "cq_inv q"
  shows "unat (m_Head (PushBack u q)) =
    (if unat (m_CurrSize q) = 0 then 0
     else if unat (m_CurrSize q) = length (m_CircleQ q)
       then (unat (m_Head q) + 1) mod length (m_CircleQ q)
     else unat (m_Head q))"
proof -
  have N: "length (m_CircleQ q) < 2 ^ 64"
    using assms by (simp add: cq_inv_def)
  show ?thesis
    using N assms by (simp add: PushBack_def Let_def Empty_unat Full_unat unat_head_succ)
qed

lemma size_PushBack:
  assumes "cq_inv q" "2 * length (m_CircleQ q) \<le> 2 ^ 64"
  shows "unat (m_CurrSize (PushBack u q)) =
    (if unat (m_CurrSize q) = length (m_CircleQ q) then length (m_CircleQ q)
     else unat (m_CurrSize q) + 1)"
proof -
  have N: "length (m_CircleQ q) < 2 ^ 64" "0 < length (m_CircleQ q)"
    using assms by (simp_all add: cq_inv_def)
  show ?thesis
    using N assms by (simp add: PushBack_def Let_def Empty_unat Full_unat unat_size_succ)
qed

lemma storage_PopHead: "m_CircleQ (PopHead q) = m_CircleQ q"
  by (simp add: PopHead_def Let_def)

lemma head_PopHead:
  assumes "cq_inv q"
  shows "unat (m_Head (PopHead q)) =
    (if unat (m_CurrSize q) = 0 then unat (m_Head q)
     else (unat (m_Head q) + 1) mod length (m_CircleQ q))"
  using assms by (simp add: PopHead_def Let_def Empty_unat unat_head_succ)

lemma size_PopHead: "unat (m_CurrSize (PopHead q)) = unat (m_CurrSize q) - 1"
  by (simp add: PopHead_def Let_def Empty_unat unat_pred)

lemma storage_PopBack: "m_CircleQ (PopBack q) = m_CircleQ q"
  by (simp add: PopBack_def)

lemma head_PopBack: "m_Head (PopBack q) = m_Head q"
  by (simp add: PopBack_def)

lemma size_PopBack: "unat (m_CurrSize (PopBack q)) = unat (m_CurrSize q) - 1"
  by (simp add: PopBack_def Empty_unat unat_pred)


subsection \<open>Every operation keeps the invariant\<close>

lemma unat_mod_Capacity_less:
  "0 < length (m_CircleQ q) \<Longrightarrow> length (m_CircleQ q) < 2 ^ 64 \<Longrightarrow>
   unat (x mod Capacity q) < length (m_CircleQ q)"
  by (simp add: unat_mod_Capacity)

lemma unat_min_Capacity_le:
  "length (m_CircleQ q) < 2 ^ 64 \<Longrightarrow> unat (min x (Capacity q)) \<le> length (m_CircleQ q)"
  by (simp add: unat_min unat_Capacity)

lemma cq_inv_new: "0 < N \<Longrightarrow> N < 2 ^ 64 \<Longrightarrow> cq_inv (CacheQueue_new N d)"
  by (simp add: cq_inv_def CacheQueue_new_def)

lemma cq_inv_PushHead: "cq_inv q \<Longrightarrow> cq_inv (PushHead u q)"
  unfolding cq_inv_def
  by (auto simp: PushHead_def Let_def unat_mod_Capacity_less unat_min_Capacity_le)

lemma cq_inv_PushBack: "cq_inv q \<Longrightarrow> cq_inv (PushBack u q)"
  unfolding cq_inv_def
  by (auto simp: PushBack_def Let_def unat_mod_Capacity_less unat_min_Capacity_le)

lemma cq_inv_PopHead: "cq_inv q \<Longrightarrow> cq_inv (PopHead q)"
  unfolding cq_inv_def
  by (auto simp: PopHead_def Let_def unat_mod_Capacity_less Empty_unat unat_pred)

lemma cq_inv_PopBack: "cq_inv q \<Longrightarrow> cq_inv (PopBack q)"
  unfolding cq_inv_def
  by (auto simp: PopBack_def Empty_unat unat_pred)

lemma cq_inv_Clear: "cq_inv q \<Longrightarrow> cq_inv (Clear q)"
  by (simp add: cq_inv_def Clear_def)

lemma cq_inv_Rotate_forward: "cq_inv q \<Longrightarrow> cq_inv (Rotate_forward n q)"
  by (induction n arbitrary: q) (simp_all add: Let_def cq_inv_PushBack cq_inv_PopHead)

lemma cq_inv_Rotate_backward: "cq_inv q \<Longrightarrow> cq_inv (Rotate_backward n q)"
  by (induction n arbitrary: q) (simp_all add: Let_def cq_inv_PushHead cq_inv_PopBack)

lemma cq_inv_Rotate: "cq_inv q \<Longrightarrow> cq_inv (Rotate k q)"
  by (simp add: Rotate_def Let_def cq_inv_Rotate_forward cq_inv_Rotate_backward)

lemma cq_inv_apply_operation: "cq_inv q \<Longrightarrow> cq_inv (apply_operation x q)"
  by (cases x)
    (simp_all add: cq_inv_PushHead cq_inv_PushBack cq_inv_PopHead cq_inv_PopBack
      cq_inv_Clear cq_inv_Rotate)

lemma cq_inv_run: "cq_inv q \<Longrightarrow> cq_inv (run ops q)"
  by (induction ops arbitrary: q) (simp_all add: cq_inv_apply_operation)

lemma length_apply_operation [simp]:
  "length (m_CircleQ (apply_operation x q)) = length (m_CircleQ q)"
  by (cases x) simp_all

lemma length_run [simp]: "length (m_CircleQ (run ops q)) = length (m_CircleQ q)"
  by (induction ops arbitrary: q) simp_all

section \<open>The logical content after each operation\<close>

lemma cq_wfD:
  assumes "cq_wf q"
  shows "cq_inv q" and "2 * length (m_CircleQ q) \<le> 2 ^ 64" and "3 * length (m_CircleQ q) \<le> 2 ^ 64"
    and "0 < length (m_CircleQ q)" and "length (m_CircleQ q) < 2 ^ 64"
    and "unat (m_Head q) < length (m_CircleQ q)"
    and "unat (m_CurrSize q) \<le> length (m_CircleQ q)"
  using assms by (simp_all add: cq_wf_def cq_inv_def)

lemma length_content: "length (content q) = unat (m_CurrSize q)"
  by (simp add: content_def length_ring_content)

lemma content_PushBack:
  assumes "cq_wf q"
  shows "content (PushBack u q) = (if Full q then tl (content q) @ [u] else content q @ [u])"
proof -
  note wf = cq_wfD [OF assms]
  let ?st = "m_CircleQ q" and ?h = "unat (m_Head q)" and ?s = "unat (m_CurrSize q)"
  have slot: "unat (PushBack_slot q) =
      (if ?s = 0 then 0 else if ?s = length ?st then ?h else (?h + ?s) mod length ?st)"
    using wf(1,2) by (rule unat_PushBack_slot)
  have hd: "unat (m_Head (PushBack u q)) =
      (if ?s = 0 then 0 else if ?s = length ?st then (?h + 1) mod length ?st else ?h)"
    using wf(1) by (rule head_PushBack)
  have sz: "unat (m_CurrSize (PushBack u q)) = (if ?s = length ?st then length ?st else ?s + 1)"
    using wf(1,2) by (rule size_PushBack)
  consider (empty) "?s = 0" | (full) "?s \<noteq> 0" "?s = length ?st" | (room) "?s \<noteq> 0" "?s < length ?st"
    using wf(7) by arith
  then show ?thesis
  proof cases
    case empty
    then have "content (PushBack u q) = ring_content (?st[0 := u]) 0 (Suc 0)"
      using wf(4) by (simp add: content_def storage_PushBack slot hd sz)
    also have "\<dots> = [u]"
      using wf(4) by (rule ring_singleton)
    finally show ?thesis
      using empty wf(4,5) by (simp add: content_def ring_content_def Full_unat)
  next
    case full
    then have "content (PushBack u q) =
        ring_content (?st[?h := u]) ((?h + 1) mod length ?st) (length ?st)"
      by (simp add: content_def storage_PushBack slot hd sz)
    also have "\<dots> = tl (ring_content ?st ?h (length ?st)) @ [u]"
      using wf(6) by (rule ring_push_back_full) simp
    finally show ?thesis
      using full wf(5) by (simp add: content_def Full_unat)
  next
    case room
    then have "content (PushBack u q) =
        ring_content (?st[(?h + ?s) mod length ?st := u]) ?h (Suc ?s)"
      by (simp add: content_def storage_PushBack slot hd sz)
    also have "\<dots> = ring_content ?st ?h ?s @ [u]"
      using room(2) by (rule ring_push_back)
    finally show ?thesis
      using room wf(5) by (simp add: content_def Full_unat)
  qed
qed

lemma content_PushHead:
  assumes "cq_wf q"
  shows "content (PushHead u q) = (if Full q then u # butlast (content q) else u # content q)"
proof -
  note wf = cq_wfD [OF assms]
  let ?st = "m_CircleQ q" and ?h = "unat (m_Head q)" and ?s = "unat (m_CurrSize q)"
  let ?h' = "(?h + length ?st - 1) mod length ?st"
  have slot: "unat (PushHead_slot q) = (if ?s = 0 then 0 else ?h')"
    using wf(1,2) by (rule unat_PushHead_slot)
  have sz: "unat (m_CurrSize (PushHead u q)) = (if ?s = length ?st then length ?st else ?s + 1)"
    using wf(1,2) by (rule size_PushHead)
  consider (empty) "?s = 0" | (full) "?s \<noteq> 0" "?s = length ?st" | (room) "?s \<noteq> 0" "?s < length ?st"
    using wf(7) by arith
  then show ?thesis
  proof cases
    case empty
    then have "content (PushHead u q) = ring_content (?st[0 := u]) 0 (Suc 0)"
      using wf(4) by (simp add: content_def storage_PushHead head_PushHead slot sz)
    also have "\<dots> = [u]"
      using wf(4) by (rule ring_singleton)
    finally show ?thesis
      using empty wf(4,5) by (simp add: content_def ring_content_def Full_unat)
  next
    case full
    then have "content (PushHead u q) = ring_content (?st[?h' := u]) ?h' (length ?st)"
      by (simp add: content_def storage_PushHead head_PushHead slot sz)
    also have "\<dots> = u # butlast (ring_content ?st ?h (length ?st))"
      using wf(4) by (rule ring_push_head_full) simp
    finally show ?thesis
      using full wf(5) by (simp add: content_def Full_unat)
  next
    case room
    then have "content (PushHead u q) = ring_content (?st[?h' := u]) ?h' (Suc ?s)"
      by (simp add: content_def storage_PushHead head_PushHead slot sz)
    also have "\<dots> = u # ring_content ?st ?h ?s"
      using wf(4) room(2) by (rule ring_push_head) simp
    finally show ?thesis
      using room wf(5) by (simp add: content_def Full_unat)
  qed
qed

lemma content_PopHead:
  assumes "cq_inv q"
  shows "content (PopHead q) = tl (content q)"
proof (cases "unat (m_CurrSize q) = 0")
  case True
  then show ?thesis
    by (simp add: content_def ring_content_def size_PopHead)
next
  case False
  then have "content (PopHead q) =
      ring_content (m_CircleQ q) ((unat (m_Head q) + 1) mod length (m_CircleQ q))
        (unat (m_CurrSize q) - 1)"
    using assms by (simp add: content_def storage_PopHead head_PopHead size_PopHead)
  also have "\<dots> = tl (ring_content (m_CircleQ q) (unat (m_Head q)) (unat (m_CurrSize q)))"
    by (rule ring_pop_head) simp
  finally show ?thesis
    by (simp add: content_def)
qed

lemma content_PopBack: "content (PopBack q) = butlast (content q)"
  using ring_pop_back [of "m_CircleQ q" "unat (m_Head q)" "unat (m_CurrSize q)"]
  by (simp add: content_def storage_PopBack head_PopBack size_PopBack)

lemma content_Clear: "content (Clear q) = []"
  by (simp add: content_def ring_content_def Clear_def)

lemma content_new: "content (CacheQueue_new N d) = []"
  by (simp add: content_def ring_content_def CacheQueue_new_def)

lemma size_eqI: "unat (m_CurrSize q') = unat (m_CurrSize q) \<Longrightarrow> Length q' = Length q"
  by (simp add: Length_def Size_def word_unat_eq_iff)

lemma unat_Length: "unat (Length q) = length (content q)"
  by (simp add: Length_def Size_def length_content)

lemma cq_wf_PushHead: "cq_wf q \<Longrightarrow> cq_wf (PushHead u q)"
  by (simp add: cq_wf_def cq_inv_PushHead)

lemma cq_wf_PushBack: "cq_wf q \<Longrightarrow> cq_wf (PushBack u q)"
  by (simp add: cq_wf_def cq_inv_PushBack)

lemma cq_wf_PopHead: "cq_wf q \<Longrightarrow> cq_wf (PopHead q)"
  by (simp add: cq_wf_def cq_inv_PopHead)

lemma cq_wf_PopBack: "cq_wf q \<Longrightarrow> cq_wf (PopBack q)"
  by (simp add: cq_wf_def cq_inv_PopBack)

lemma cq_wf_Rotate: "cq_wf q \<Longrightarrow> cq_wf (Rotate k q)"
  by (simp add: cq_wf_def cq_inv_Rotate)

lemma cq_wf_run: "cq_wf q \<Longrightarrow> cq_wf (run ops q)"
  by (simp add: cq_wf_def cq_inv_run)

lemma cq_wf_new: "0 < N \<Longrightarrow> 3 * N \<le> 2 ^ 64 \<Longrightarrow> cq_wf (CacheQueue_new N d)"
  by (simp add: cq_wf_def cq_inv_new) (simp add: CacheQueue_new_def)

section \<open>The length through a round of Rotate\<close>

lemma unat_size_succ_room:
  assumes "cq_inv q" and "unat (m_CurrSize q) < length (m_CircleQ q)"
  shows "unat (min (m_CurrSize q + 1) (Capacity q)) = unat (m_CurrSize q) + 1"
proof -
  have N: "length (m_CircleQ q) < 2 ^ 64"
    using assms by (simp add: cq_inv_def)
  have "unat (m_CurrSize q) + 1 < 2 ^ 64"
    using N assms(2) by simp
  then have "unat (m_CurrSize q + 1) = unat (m_CurrSize q) + 1"
    by (rule unat_succ_small)
  then show ?thesis
    using N assms(2) by (simp add: unat_min unat_Capacity)
qed

lemma size_PushBack_room:
  assumes "cq_inv q" and "unat (m_CurrSize q) < length (m_CircleQ q)"
  shows "unat (m_CurrSize (PushBack u q)) = unat (m_CurrSize q) + 1"
proof -
  have N: "length (m_CircleQ q) < 2 ^ 64"
    using assms by (simp add: cq_inv_def)
  show ?thesis
    using N assms by (simp add: PushBack_def Let_def Empty_unat Full_unat unat_size_succ_room)
qed

lemma size_PushHead_room:
  assumes "cq_inv q" and "unat (m_CurrSize q) < length (m_CircleQ q)"
  shows "unat (m_CurrSize (PushHead u q)) = unat (m_CurrSize q) + 1"
  using assms by (simp add: PushHead_def Let_def Empty_unat unat_size_succ_room)

lemma size_forward_round:
  assumes "cq_inv q" and "unat (m_CurrSize q) \<noteq> 0"
  shows "unat (m_CurrSize (PushBack u (PopHead q))) = unat (m_CurrSize q)"
proof -
  have "unat (m_CurrSize q) \<le> length (m_CircleQ q)"
    using assms by (simp add: cq_inv_def)
  then have "unat (m_CurrSize (PopHead q)) < length (m_CircleQ (PopHead q))"
    using assms(2) by (simp add: size_PopHead)
  then have "unat (m_CurrSize (PushBack u (PopHead q))) = unat (m_CurrSize (PopHead q)) + 1"
    using assms(1) by (intro size_PushBack_room cq_inv_PopHead)
  then show ?thesis
    using assms(2) by (simp add: size_PopHead)
qed

lemma size_backward_round:
  assumes "cq_inv q" and "unat (m_CurrSize q) \<noteq> 0"
  shows "unat (m_CurrSize (PushHead u (PopBack q))) = unat (m_CurrSize q)"
proof -
  have "unat (m_CurrSize q) \<le> length (m_CircleQ q)"
    using assms by (simp add: cq_inv_def)
  then have "unat (m_CurrSize (PopBack q)) < length (m_CircleQ (PopBack q))"
    using assms(2) by (simp add: size_PopBack)
  then have "unat (m_CurrSize (PushHead u (PopBack q))) = unat (m_CurrSize (PopBack q)) + 1"
    using assms(1) by (intro size_PushHead_room cq_inv_PopBack)
  then show ?thesis
    using assms(2) by (simp add: size_PopBack)
qed

lemma size_Rotate_forward:
  "cq_inv q \<Longrightarrow> unat (m_CurrSize q) \<noteq> 0 \<Longrightarrow>
   unat (m_CurrSize (Rotate_forward n q)) = unat (m_CurrSize q)"
proof (induction n arbitrary: q)
  case 0
  show ?case by simp
next
  case (Suc n)
  let ?q' = "PushBack (Head q) (PopHead q)"
  have same: "unat (m_CurrSize ?q') = unat (m_CurrSize q)"
    using Suc.prems by (rule size_forward_round)
  have "cq_inv ?q'"
    using Suc.prems(1) by (intro cq_inv_PushBack cq_inv_PopHead)
  then have "unat (m_CurrSize (Rotate_forward n ?q')) = unat (m_CurrSize ?q')"
    using Suc.prems(2) same by (intro Suc.IH) simp_all
  then show ?case
    using same by (simp add: Let_def)
qed

lemma size_Rotate_backward:
  "cq_inv q \<Longrightarrow> unat (m_CurrSize q) \<noteq> 0 \<Longrightarrow>
   unat (m_CurrSize (Rotate_backward n q)) = unat (m_CurrSize q)"
proof (induction n arbitrary: q)
  case 0
  show ?case by simp
next
  case (Suc n)
  let ?q' = "PushHead (Back q) (PopBack q)"
  have same: "unat (m_CurrSize ?q') = unat (m_CurrSize q)"
    using Suc.prems by (rule size_backward_round)
  have "cq_inv ?q'"
    using Suc.prems(1) by (intro cq_inv_PushHead cq_inv_PopBack)
  then have "unat (m_CurrSize (Rotate_backward n ?q')) = unat (m_CurrSize ?q')"
    using Suc.prems(2) same by (intro Suc.IH) simp_all
  then show ?case
    using same by (simp add: Let_def)
qed

section \<open>The logical content through Rotate\<close>

lemma content_nonempty: "content q \<noteq> [] \<longleftrightarrow> unat (m_CurrSize q) \<noteq> 0"
  using length_content [of q] by (metis length_0_conv)

lemma Head_content:
  assumes "cq_inv q" and "unat (m_CurrSize q) \<noteq> 0"
  shows "Head q = hd (content q)"
proof -
  have h: "unat (m_Head q) < length (m_CircleQ q)"
    using assms by (simp add: cq_inv_def)
  have "hd (content q) = content q ! 0"
    using assms(2) by (simp add: hd_conv_nth content_nonempty)
  also have "\<dots> = m_CircleQ q ! ((unat (m_Head q) + 0) mod length (m_CircleQ q))"
    unfolding content_def using assms(2) by (intro nth_ring_content) simp
  also have "\<dots> = m_CircleQ q ! unat (m_Head q)"
    using h by simp
  finally show ?thesis
    by (simp add: Head_def Head_slot_def array_get_def)
qed

lemma unat_Back_slot:
  assumes "cq_wf q"
  shows "unat (Back_slot q) =
    (unat (m_Head q) + unat (m_CurrSize q) + length (m_CircleQ q) - 1) mod length (m_CircleQ q)"
proof -
  note wf = cq_wfD [OF assms]
  have hs: "unat (m_Head q) + unat (m_CurrSize q) < 2 ^ 64"
    using wf by simp
  then have 1: "unat (m_Head q + m_CurrSize q) = unat (m_Head q) + unat (m_CurrSize q)"
    by (rule unat_plus_small)
  have "unat (m_Head q + m_CurrSize q) + unat (Capacity q) < 2 ^ 64"
    using wf 1 by (simp add: unat_Capacity)
  then have 2: "unat (m_Head q + m_CurrSize q + Capacity q) =
      unat (m_Head q) + unat (m_CurrSize q) + length (m_CircleQ q)"
    using wf(5) 1 by (simp add: unat_plus_small unat_Capacity)
  then have "unat (m_Head q + m_CurrSize q + Capacity q - 1) =
      unat (m_Head q) + unat (m_CurrSize q) + length (m_CircleQ q) - 1"
    using wf(4) by (simp add: unat_pred)
  then show ?thesis
    using wf(5) by (simp add: Back_slot_def Length_def Size_def unat_mod_Capacity)
qed

lemma Back_content:
  assumes "cq_wf q" and "unat (m_CurrSize q) \<noteq> 0"
  shows "Back q = last (content q)"
proof -
  note wf = cq_wfD [OF assms(1)]
  let ?N = "length (m_CircleQ q)" and ?h = "unat (m_Head q)" and ?s = "unat (m_CurrSize q)"
  have "?h + ?s + ?N - 1 = ?h + (?s - 1) + ?N"
    using assms(2) by simp
  then have slot: "unat (Back_slot q) = (?h + (?s - 1)) mod ?N"
    using assms(1) by (simp add: unat_Back_slot)
  have "last (content q) = content q ! (?s - 1)"
    using assms(2) by (simp add: last_conv_nth content_nonempty length_content)
  also have "\<dots> = m_CircleQ q ! ((?h + (?s - 1)) mod ?N)"
    unfolding content_def using assms(2) by (intro nth_ring_content) simp
  finally show ?thesis
    using slot by (simp add: Back_def array_get_def)
qed

lemma PopHead_not_Full:
  assumes "cq_inv q" and "unat (m_CurrSize q) \<noteq> 0"
  shows "\<not> Full (PopHead q)"
proof -
  have "unat (m_CurrSize q) \<le> length (m_CircleQ q)" "length (m_CircleQ q) < 2 ^ 64"
    using assms by (simp_all add: cq_inv_def)
  then show ?thesis
    using assms(2) by (simp add: Full_unat size_PopHead)
qed

lemma PopBack_not_Full:
  assumes "cq_inv q" and "unat (m_CurrSize q) \<noteq> 0"
  shows "\<not> Full (PopBack q)"
proof -
  have "unat (m_CurrSize q) \<le> length (m_CircleQ q)" "length (m_CircleQ q) < 2 ^ 64"
    using assms by (simp_all add: cq_inv_def)
  then show ?thesis
    using assms(2) by (simp add: Full_unat size_PopBack)
qed

lemma content_forward_round:
  assumes "cq_wf q" and "unat (m_CurrSize q) \<noteq> 0"
  shows "content (PushBack (Head q) (PopHead q)) = rotate1 (content q)"
proof -
  note wf = cq_wfD [OF assms(1)]
  have "content (PushBack (Head q) (PopHead q)) = content (PopHead q) @ [Head q]"
    using assms wf(1) by (simp add: content_PushBack cq_wf_PopHead PopHead_not_Full)
  also have "\<dots> = tl (content q) @ [hd (content q)]"
    using assms(2) wf(1) by (simp add: content_PopHead Head_content)
  also have "\<dots> = rotate1 (content q)"
    using assms(2) by (simp add: rotate1_hd_tl content_nonempty)
  finally show ?thesis .
qed

lemma content_backward_round:
  assumes "cq_wf q" and "unat (m_CurrSize q) \<noteq> 0"
  shows "rotate1 (content (PushHead (Back q) (PopBack q))) = content q"
proof -
  note wf = cq_wfD [OF assms(1)]
  have "content (PushHead (Back q) (PopBack q)) = Back q # content (PopBack q)"
    using assms wf(1) by (simp add: content_PushHead cq_wf_PopBack PopBack_not_Full)
  also have "\<dots> = last (content q) # butlast (content q)"
    using assms by (simp add: content_PopBack Back_content)
  finally show ?thesis
    using assms(2) by (simp add: content_nonempty)
qed

lemma content_Rotate_forward:
  "cq_wf q \<Longrightarrow> unat (m_CurrSize q) \<noteq> 0 \<Longrightarrow>
   content (Rotate_forward n q) = rotate n (content q)"
proof (induction n arbitrary: q)
  case 0
  show ?case by simp
next
  case (Suc n)
  let ?q' = "PushBack (Head q) (PopHead q)"
  have wf': "cq_wf ?q'"
    using Suc.prems(1) by (intro cq_wf_PushBack cq_wf_PopHead)
  have ne': "unat (m_CurrSize ?q') \<noteq> 0"
    using Suc.prems by (simp add: size_forward_round cq_wfD(1))
  have "content (Rotate_forward (Suc n) q) = content (Rotate_forward n ?q')"
    by (simp add: Let_def)
  also have "\<dots> = rotate n (content ?q')"
    using wf' ne' by (rule Suc.IH)
  also have "\<dots> = rotate n (rotate1 (content q))"
    using Suc.prems by (simp add: content_forward_round)
  also have "\<dots> = rotate (Suc n) (content q)"
    by (simp add: rotate1_rotate_swap)
  finally show ?case .
qed

lemma content_Rotate_backward:
  "cq_wf q \<Longrightarrow> unat (m_CurrSize q) \<noteq> 0 \<Longrightarrow>
   rotate n (content (Rotate_backward n q)) = content q"
proof (induction n arbitrary: q)
  case 0
  show ?case by simp
next
  case (Suc n)
  let ?q' = "PushHead (Back q) (PopBack q)"
  have wf': "cq_wf ?q'"
    using Suc.prems(1) by (intro cq_wf_PushHead cq_wf_PopBack)
  have ne': "unat (m_CurrSize ?q') \<noteq> 0"
    using Suc.prems by (simp add: size_backward_round cq_wfD(1))
  have "rotate (Suc n) (content (Rotate_backward (Suc n) q)) =
        rotate1 (rotate n (content (Rotate_backward n ?q')))"
    by (simp add: Let_def)
  also have "\<dots> = rotate1 (content ?q')"
    using wf' ne' by (simp add: Suc.IH)
  also have "\<dots> = content q"
    using Suc.prems by (rule content_backward_round)
  finally show ?case .
qed

lemma rotate_undo: "rotate (n * (length xs - 1)) (rotate n xs) = xs"
proof (cases "length xs")
  case 0
  then show ?thesis by simp
next
  case (Suc k)
  have "rotate (n * k) (rotate n xs) = rotate (n * k + n) xs"
    by (rule rotate_rotate)
  also have "n * k + n = n * length xs"
    using Suc by simp
  also have "rotate (n * length xs) xs = xs"
    by simp
  finally show ?thesis
    using Suc by simp
qed

lemma rotate_cancel:
  assumes "rotate n xs = rotate n ys"
  shows "xs = ys"
proof -
  have len: "length xs = length ys"
    using assms by (metis length_rotate)
  have "xs = rotate (n * (length xs - 1)) (rotate n xs)"
    by (simp only: rotate_undo)
  also have "\<dots> = rotate (n * (length ys - 1)) (rotate n ys)"
    using assms len by simp
  also have "\<dots> = ys"
    by (rule rotate_undo)
  finally show ?thesis .
qed

lemma Rotate_pos: "\<not> Empty q \<Longrightarrow> 0 < k \<Longrightarrow> Rotate k q = Rotate_forward (nat k) q"
  by (simp add: Rotate_def Let_def)

lemma Rotate_neg: "\<not> Empty q \<Longrightarrow> k < 0 \<Longrightarrow> Rotate k q = Rotate_backward (nat (- k)) q"
  by (simp add: Rotate_def Let_def)

lemma Rotate_zero: "Rotate 0 q = q"
  by (simp add: Rotate_def)

lemma Rotate_Empty: "Empty q \<Longrightarrow> Rotate k q = q"
  by (simp add: Rotate_def)

section \<open>Indexing\<close>

lemma unat_index_slot:
  assumes "length (m_CircleQ q) < 2 ^ 64"
  shows "unat (index_slot q i) =
    ((unat (m_Head q) + unat i + length (m_CircleQ q)) mod 2 ^ 64) mod length (m_CircleQ q)"
proof -
  have "unat (m_Head q + i + Capacity q) =
      ((unat (m_Head q) + unat i) mod 2 ^ 64 + length (m_CircleQ q)) mod 2 ^ 64"
    using assms by (simp add: unat_word_ariths unat_Capacity)
  also have "\<dots> = (unat (m_Head q) + unat i + length (m_CircleQ q)) mod 2 ^ 64"
    by (rule mod_add_left_eq)
  finally show ?thesis
    using assms by (simp add: index_slot_def unat_mod_Capacity)
qed

lemma unat_index_slot_small:
  assumes "0 < length (m_CircleQ q)" and "length (m_CircleQ q) < 2 ^ 64"
    and "unat (m_Head q) + unat i + length (m_CircleQ q) < 2 ^ 64"
  shows "unat (index_slot q i) = (unat (m_Head q) + unat i) mod length (m_CircleQ q)"
  using assms by (simp add: unat_index_slot)

lemma index_content:
  assumes "cq_wf q" and "unat i < unat (m_CurrSize q)"
  shows "index q i = content q ! unat i"
proof -
  note wf = cq_wfD [OF assms(1)]
  have "unat (m_Head q) + unat i + length (m_CircleQ q) < 2 ^ 64"
    using wf assms(2) by simp
  then have "unat (index_slot q i) = (unat (m_Head q) + unat i) mod length (m_CircleQ q)"
    using wf(4,5) by (intro unat_index_slot_small)
  moreover have "content q ! unat i =
      m_CircleQ q ! ((unat (m_Head q) + unat i) mod length (m_CircleQ q))"
    unfolding content_def using assms(2) by (rule nth_ring_content)
  ultimately show ?thesis
    by (simp add: index_def array_get_def)
qed

lemma cq_inv_PopHead_funpow: "cq_inv q \<Longrightarrow> cq_inv ((PopHead ^^ n) q)"
  by (induction n) (simp_all add: cq_inv_PopHead)

lemma content_PopHead_funpow: "cq_inv q \<Longrightarrow> content ((PopHead ^^ n) q) = drop n (content q)"
proof (induction n)
  case 0
  show ?case by simp
next
  case (Suc n)
  have "content ((PopHead ^^ Suc n) q) = tl (content ((PopHead ^^ n) q))"
    using Suc.prems by (simp add: content_PopHead cq_inv_PopHead_funpow)
  also have "\<dots> = tl (drop n (content q))"
    using Suc by simp
  also have "\<dots> = drop (Suc n) (content q)"
    by (simp add: drop_Suc drop_tl)
  finally show ?case .
qed

lemma Head_PopHead_funpow:
  assumes "cq_inv q" and "n < unat (m_CurrSize q)"
  shows "Head ((PopHead ^^ n) q) = content q ! n"
proof -
  let ?q' = "(PopHead ^^ n) q"
  have c: "content ?q' = drop n (content q)"
    using assms(1) by (rule content_PopHead_funpow)
  then have "length (content ?q') = unat (m_CurrSize q) - n"
    by (simp add: length_content)
  then have ne: "unat (m_CurrSize ?q') \<noteq> 0"
    using assms(2) by (simp add: length_content)
  have "Head ?q' = hd (content ?q')"
    using assms(1) ne by (intro Head_content cq_inv_PopHead_funpow)
  also have "\<dots> = content q ! n"
    using assms(2) by (simp add: c hd_drop_conv_nth length_content)
  finally show ?thesis .
qed

section \<open>The element count and the slots\<close>

lemma size_Rotate:
  assumes "cq_inv q"
  shows "unat (m_CurrSize (Rotate k q)) = unat (m_CurrSize q)"
proof (cases "Empty q")
  case True
  then show ?thesis
    by (simp add: Rotate_Empty)
next
  case False
  then have ne: "unat (m_CurrSize q) \<noteq> 0"
    by (simp add: Empty_unat)
  consider (zero) "k = 0" | (pos) "0 < k" | (neg) "k < 0"
    by linarith
  then show ?thesis
  proof cases
    case zero
    then show ?thesis
      by (simp add: Rotate_zero)
  next
    case pos
    then show ?thesis
      using False assms ne by (simp add: Rotate_pos size_Rotate_forward)
  next
    case neg
    then show ?thesis
      using False assms ne by (simp add: Rotate_neg size_Rotate_backward)
  qed
qed

lemma size_Clear: "unat (m_CurrSize (Clear q)) = 0"
  by (simp add: Clear_def)

lemma size_apply_operation:
  assumes "cq_inv q" and "2 * length (m_CircleQ q) \<le> 2 ^ 64"
  shows "unat (m_CurrSize (apply_operation x q)) =
         count_step (length (m_CircleQ q)) x (unat (m_CurrSize q))"
  using assms
  by (cases x)
    (simp_all add: size_PushHead size_PushBack size_PopHead size_PopBack size_Clear size_Rotate)

lemma size_run:
  "cq_inv q \<Longrightarrow> 2 * length (m_CircleQ q) \<le> 2 ^ 64 \<Longrightarrow>
   unat (m_CurrSize (run ops q)) = element_count (length (m_CircleQ q)) ops (unat (m_CurrSize q))"
proof (induction ops arbitrary: q)
  case Nil
  show ?case by simp
next
  case (Cons x xs)
  have "cq_inv (apply_operation x q)"
    using Cons.prems(1) by (rule cq_inv_apply_operation)
  then have "unat (m_CurrSize (run xs (apply_operation x q))) =
      element_count (length (m_CircleQ q)) xs (unat (m_CurrSize (apply_operation x q)))"
    using Cons.prems(2) Cons.IH [of "apply_operation x q"] by simp
  then show ?case
    using Cons.prems by (simp add: size_apply_operation)
qed

lemma unat_Back_slot_less:
  "0 < length (m_CircleQ q) \<Longrightarrow> length (m_CircleQ q) < 2 ^ 64 \<Longrightarrow>
   unat (Back_slot q) < length (m_CircleQ q)"
  by (simp add: Back_slot_def unat_mod_Capacity_less)

lemma unat_index_slot_less:
  "0 < length (m_CircleQ q) \<Longrightarrow> length (m_CircleQ q) < 2 ^ 64 \<Longrightarrow>
   unat (index_slot q i) < length (m_CircleQ q)"
  by (simp add: index_slot_def unat_mod_Capacity_less)

lemma unat_PushHead_slot_less:
  "0 < length (m_CircleQ q) \<Longrightarrow> length (m_CircleQ q) < 2 ^ 64 \<Longrightarrow>
   unat (PushHead_slot q) < length (m_CircleQ q)"
  by (simp add: PushHead_slot_def unat_mod_Capacity_less)

lemma unat_PushBack_slot_less:
  "cq_inv q \<Longrightarrow> unat (PushBack_slot q) < length (m_CircleQ q)"
  by (simp add: PushBack_slot_def cq_inv_def unat_mod_Capacity_less)

lemma BackOff_eq_Back_slot: "BackOff q = Back_slot q"
proof -
  have "m_Head q + Length q - 1 + Capacity q = m_Head q + Length q + Capacity q - 1"
    by simp
  then show ?thesis
    by (simp only: BackOff_def Back_slot_def)
qed

section \<open>The claims\<close>

text \<open>
  C1. On a full buffer of capacity \<open>N > 0\<close> with logical content \<open>e0 .. e(N-1)\<close>, front to
  back, \<^verbatim>\<open>PushBack(x)\<close> gives the content \<open>e1 .. e(N-1), x\<close> (the front element is dropped),
  \<^verbatim>\<open>PushHead(x)\<close> gives \<open>x, e0 .. e(N-2)\<close> (the back element is dropped), and the length is
  still \<open>N\<close> after either.
\<close>

theorem C1_overwrite_on_full:
  assumes "cq_wf q" and "Full q"
  shows "content (PushBack x q) = tl (content q) @ [x] \<and>
         unat (Length (PushBack x q)) = length (m_CircleQ q) \<and>
         content (PushHead x q) = x # butlast (content q) \<and>
         unat (Length (PushHead x q)) = length (m_CircleQ q)"
proof -
  note wf = cq_wfD [OF assms(1)]
  have full: "unat (m_CurrSize q) = length (m_CircleQ q)"
    using assms(2) wf(5) by (simp add: Full_unat)
  have "content (PushBack x q) = tl (content q) @ [x]"
    using assms by (simp add: content_PushBack)
  moreover have "content (PushHead x q) = x # butlast (content q)"
    using assms by (simp add: content_PushHead)
  moreover have "unat (Length (PushBack x q)) = length (m_CircleQ q)"
    using wf(1,2) full by (simp add: Length_def Size_def size_PushBack)
  moreover have "unat (Length (PushHead x q)) = length (m_CircleQ q)"
    using wf(1,2) full by (simp add: Length_def Size_def size_PushHead)
  ultimately show ?thesis
    by simp
qed

theorem C1_overwrite_on_full_witness:
  "cq_wf \<lparr>m_CircleQ = [30, 10, 20 :: nat], m_Head = 1, m_CurrSize = 3\<rparr> \<and>
   Full \<lparr>m_CircleQ = [30, 10, 20 :: nat], m_Head = 1, m_CurrSize = 3\<rparr> \<and>
   content \<lparr>m_CircleQ = [30, 10, 20 :: nat], m_Head = 1, m_CurrSize = 3\<rparr> = [10, 20, 30] \<and>
   content (PushBack 7 \<lparr>m_CircleQ = [30, 10, 20 :: nat], m_Head = 1, m_CurrSize = 3\<rparr>) = [20, 30, 7] \<and>
   unat (Length (PushBack 7 \<lparr>m_CircleQ = [30, 10, 20 :: nat], m_Head = 1, m_CurrSize = 3\<rparr>)) = 3 \<and>
   content (PushHead 7 \<lparr>m_CircleQ = [30, 10, 20 :: nat], m_Head = 1, m_CurrSize = 3\<rparr>) = [7, 10, 20] \<and>
   unat (Length (PushHead 7 \<lparr>m_CircleQ = [30, 10, 20 :: nat], m_Head = 1, m_CurrSize = 3\<rparr>)) = 3"
proof -
  have wf: "cq_wf \<lparr>m_CircleQ = [30, 10, 20 :: nat], m_Head = 1, m_CurrSize = 3\<rparr>"
    by (simp add: cq_wf_def cq_inv_def)
  have full: "Full \<lparr>m_CircleQ = [30, 10, 20 :: nat], m_Head = 1, m_CurrSize = 3\<rparr>"
    by (simp add: Full_def Capacity_def)
  have c: "content \<lparr>m_CircleQ = [30, 10, 20 :: nat], m_Head = 1, m_CurrSize = 3\<rparr> = [10, 20, 30]"
    by (simp add: content_def ring_content_def upt_rec)
  show ?thesis
    using C1_overwrite_on_full [OF wf full, of 7] wf full c by simp
qed

text \<open>
  C2. For every capacity \<open>N > 0\<close> (a \<^verbatim>\<open>size_t\<close>, so below \<open>2 ^ 64\<close>), every state reached
  from the freshly constructed buffer by a sequence of \<^verbatim>\<open>PushHead\<close>, \<^verbatim>\<open>PushBack\<close>, \<^verbatim>\<open>PopHead\<close>,
  \<^verbatim>\<open>PopBack\<close>, \<^verbatim>\<open>Clear\<close> and \<^verbatim>\<open>Rotate\<close> calls has \<open>length \<le> N\<close> and \<open>head < N\<close> (both are
  unsigned, so \<open>0 \<le>\<close> holds by type), and its storage still has \<open>N\<close> slots. The operations
  are total functions of the state.
\<close>

theorem C2_invariant_reachable:
  assumes "0 < N" and "N < 2 ^ 64"
  shows "length (m_CircleQ (run ops (CacheQueue_new N d))) = N \<and>
         unat (Length (run ops (CacheQueue_new N d))) \<le> N \<and>
         unat (m_Head (run ops (CacheQueue_new N d))) < N"
proof -
  have "cq_inv (run ops (CacheQueue_new N d))"
    using assms by (intro cq_inv_run cq_inv_new)
  moreover have "length (m_CircleQ (run ops (CacheQueue_new N d))) = N"
    by (simp add: CacheQueue_new_def)
  ultimately show ?thesis
    by (simp add: cq_inv_def Length_def Size_def)
qed

theorem C2_invariant_reachable_witness:
  "(0::nat) < 3 \<and> (3::nat) < 2 ^ 64 \<and>
   length (m_CircleQ (run [OpPushBack 1, OpPushBack 2, OpPushBack 3, OpPushBack 4, OpPopHead,
       OpPushHead 9, OpRotate 1, OpRotate (- 2), OpPopBack, OpClear, OpPushHead 5]
     (CacheQueue_new 3 (0::nat)))) = 3 \<and>
   unat (Length (run [OpPushBack 1, OpPushBack 2, OpPushBack 3, OpPushBack 4, OpPopHead,
       OpPushHead 9, OpRotate 1, OpRotate (- 2), OpPopBack, OpClear, OpPushHead 5]
     (CacheQueue_new 3 (0::nat)))) \<le> 3 \<and>
   unat (m_Head (run [OpPushBack 1, OpPushBack 2, OpPushBack 3, OpPushBack 4, OpPopHead,
       OpPushHead 9, OpRotate 1, OpRotate (- 2), OpPopBack, OpClear, OpPushHead 5]
     (CacheQueue_new 3 (0::nat)))) < 3"
  using C2_invariant_reachable [of 3 "[OpPushBack 1, OpPushBack 2, OpPushBack 3, OpPushBack 4,
       OpPopHead, OpPushHead 9, OpRotate 1, OpRotate (- 2), OpPopBack, OpClear, OpPushHead 5]"
       "0::nat"]
  by simp

text \<open>
  C3 fails on the code. \<^verbatim>\<open>Reset()\<close> assigns to no field but the storage, so \<^verbatim>\<open>HeadOff()\<close>
  after it is the head before it, whatever \<^verbatim>\<open>std::rotate\<close> does to the array: on a buffer
  of capacity 3 after \<^verbatim>\<open>PushBack(a); PushBack(b); PopHead()\<close> the head is 1, and it is still 1
  after \<^verbatim>\<open>Reset()\<close>, where the claim says 0.
\<close>

theorem C3_Reset_leaves_head:
  "HeadOff (PopHead (PushBack b (PushBack a (CacheQueue_new 3 d)))) = 1 \<and>
   HeadOff (Reset std_rotate (PopHead (PushBack b (PushBack a (CacheQueue_new 3 d))))) = 1"
  by (simp add: HeadOff_def Reset_def PopHead_def PushBack_def CacheQueue_new_def Let_def
      Empty_def Full_def Capacity_def Length_def Size_def array_set_def)

text \<open>
  C4. On a full buffer of capacity \<open>N > 0\<close>, \<^verbatim>\<open>Rotate(k)\<close> with \<open>k > 0\<close> loses no element:
  the content afterwards is the content before, shifted cyclically to the left by \<open>k\<close>,
  and the length is still \<open>N\<close>. No push overwrites, because after any number \<open>j\<close> of rounds
  the \<^verbatim>\<open>PopHead\<close> of the next round leaves a buffer that is not full, and that is the buffer
  \<^verbatim>\<open>PushBack\<close> stores into.
\<close>

theorem C4_Rotate_full_preserves_content:
  assumes "cq_wf q" and "Full q" and "0 < k"
  shows "content (Rotate k q) = rotate (nat k) (content q) \<and>
         unat (Length (Rotate k q)) = length (m_CircleQ q) \<and>
         \<not> Full (PopHead (Rotate_forward j q))"
proof -
  note wf = cq_wfD [OF assms(1)]
  have full: "unat (m_CurrSize q) = length (m_CircleQ q)"
    using assms(2) wf(5) by (simp add: Full_unat)
  then have ne: "unat (m_CurrSize q) \<noteq> 0"
    using wf(4) by simp
  then have "\<not> Empty q"
    by (simp add: Empty_unat)
  then have "Rotate k q = Rotate_forward (nat k) q"
    using assms(3) by (simp add: Rotate_def Let_def)
  then have c: "content (Rotate k q) = rotate (nat k) (content q)"
    using assms(1) ne by (simp add: content_Rotate_forward)
  then have "length (content (Rotate k q)) = length (content q)"
    by simp
  then have "unat (Length (Rotate k q)) = length (m_CircleQ q)"
    using full by (simp add: unat_Length length_content)
  moreover have "\<not> Full (PopHead (Rotate_forward j q))"
    using wf(1) ne by (intro PopHead_not_Full cq_inv_Rotate_forward) (simp_all add: size_Rotate_forward)
  ultimately show ?thesis
    using c by simp
qed

theorem C4_Rotate_full_preserves_content_witness:
  "cq_wf \<lparr>m_CircleQ = [30, 10, 20 :: nat], m_Head = 1, m_CurrSize = 3\<rparr> \<and>
   Full \<lparr>m_CircleQ = [30, 10, 20 :: nat], m_Head = 1, m_CurrSize = 3\<rparr> \<and> (0::int) < 2 \<and>
   content \<lparr>m_CircleQ = [30, 10, 20 :: nat], m_Head = 1, m_CurrSize = 3\<rparr> = [10, 20, 30] \<and>
   content (Rotate 2 \<lparr>m_CircleQ = [30, 10, 20 :: nat], m_Head = 1, m_CurrSize = 3\<rparr>) = [30, 10, 20] \<and>
   unat (Length (Rotate 2 \<lparr>m_CircleQ = [30, 10, 20 :: nat], m_Head = 1, m_CurrSize = 3\<rparr>)) = 3"
proof -
  have wf: "cq_wf \<lparr>m_CircleQ = [30, 10, 20 :: nat], m_Head = 1, m_CurrSize = 3\<rparr>"
    by (simp add: cq_wf_def cq_inv_def)
  have full: "Full \<lparr>m_CircleQ = [30, 10, 20 :: nat], m_Head = 1, m_CurrSize = 3\<rparr>"
    by (simp add: Full_def Capacity_def)
  have c: "content \<lparr>m_CircleQ = [30, 10, 20 :: nat], m_Head = 1, m_CurrSize = 3\<rparr> = [10, 20, 30]"
    by (simp add: content_def ring_content_def upt_rec)
  have k: "(0::int) < 2"
    by simp
  have r: "rotate (nat 2) [10, 20, 30 :: nat] = [30, 10, 20]"
    by (simp add: rotate_def eval_nat_numeral)
  show ?thesis
    using C4_Rotate_full_preserves_content [OF wf full k] wf full c r by simp
qed

text \<open>
  C5. On a buffer of logical length \<open>L\<close>, \<^verbatim>\<open>Rotate\<close> by \<open>L\<close> or by any multiple \<open>m * L\<close> of it
  (\<open>m\<close> positive, negative or zero) gives back the logical content in its order (on an
  empty buffer too, where \<^verbatim>\<open>Rotate\<close> does nothing); and \<^verbatim>\<open>Rotate(k)\<close> followed by
  \<^verbatim>\<open>Rotate(-k)\<close> gives back the logical content in its order, for every \<open>k\<close>.
\<close>

theorem C5_Rotate_equivalence:
  assumes "cq_wf q"
  shows "content (Rotate (m * int (unat (Length q))) q) = content q \<and>
         content (Rotate (- k) (Rotate k q)) = content q"
proof -
  note wf = cq_wfD [OF assms]
  have multiple: "content (Rotate (m * int (length (content q))) q) = content q" if "\<not> Empty q"
  proof -
    let ?L = "length (content q)"
    have ne: "unat (m_CurrSize q) \<noteq> 0"
      using that by (simp add: Empty_unat)
    consider (zero) "m * int ?L = 0" | (pos) "0 < m * int ?L" | (neg) "m * int ?L < 0"
      by linarith
    then show ?thesis
    proof cases
      case zero
      then show ?thesis
        by (simp only: Rotate_zero)
    next
      case pos
      then have "0 < m"
        by (simp add: zero_less_mult_iff)
      then have n: "nat (m * int ?L) = nat m * ?L"
        by (simp add: nat_mult_distrib)
      have "Rotate (m * int ?L) q = Rotate_forward (nat (m * int ?L)) q"
        using that pos by (rule Rotate_pos)
      then have "Rotate (m * int ?L) q = Rotate_forward (nat m * ?L) q"
        by (simp only: n)
      moreover have "content (Rotate_forward (nat m * ?L) q) = rotate (nat m * ?L) (content q)"
        using assms ne by (rule content_Rotate_forward)
      ultimately have "content (Rotate (m * int ?L) q) = rotate (nat m * ?L) (content q)"
        by simp
      also have "\<dots> = content q"
        by simp
      finally show ?thesis .
    next
      case neg
      then have "m < 0"
        by (simp add: mult_less_0_iff)
      then have n: "nat (- (m * int ?L)) = nat (- m) * ?L"
        using nat_mult_distrib [of "- m" "int ?L"] by simp
      let ?q' = "Rotate_backward (nat (- m) * ?L) q"
      have "Rotate (m * int ?L) q = Rotate_backward (nat (- (m * int ?L))) q"
        using that neg by (rule Rotate_neg)
      then have R: "Rotate (m * int ?L) q = ?q'"
        by (simp only: n)
      have "length (content ?q') = ?L"
        using wf(1) ne by (simp add: length_content size_Rotate_backward)
      then have "rotate (nat (- m) * ?L) (content ?q') = content ?q'"
        by simp
      moreover have "rotate (nat (- m) * ?L) (content ?q') = content q"
        using assms ne by (rule content_Rotate_backward)
      ultimately show ?thesis
        using R by simp
    qed
  qed
  have there_and_back: "content (Rotate (- k) (Rotate k q)) = content q"
  proof (cases "Empty q \<or> k = 0")
    case True
    then show ?thesis
      by (auto simp: Rotate_zero Rotate_Empty)
  next
    case False
    then have ne: "unat (m_CurrSize q) \<noteq> 0" and k: "k \<noteq> 0" and e: "\<not> Empty q"
      by (simp_all add: Empty_unat)
    show ?thesis
    proof (cases "0 < k")
      case True
      let ?n = "nat k"
      let ?q1 = "Rotate_forward ?n q"
      have R1: "Rotate k q = ?q1"
        using e True by (rule Rotate_pos)
      have wf1: "cq_wf ?q1"
        using assms cq_wf_Rotate [of q k] by (simp only: R1)
      have ne1: "unat (m_CurrSize ?q1) \<noteq> 0"
        using wf(1) ne by (simp add: size_Rotate_forward)
      then have "\<not> Empty ?q1"
        by (simp add: Empty_unat)
      then have "Rotate (- k) ?q1 = Rotate_backward (nat (- (- k))) ?q1"
        using True by (intro Rotate_neg) simp_all
      then have R2: "Rotate (- k) (Rotate k q) = Rotate_backward ?n ?q1"
        by (simp add: R1)
      have "rotate ?n (content (Rotate_backward ?n ?q1)) = content ?q1"
        using wf1 ne1 by (rule content_Rotate_backward)
      also have "\<dots> = rotate ?n (content q)"
        using assms ne by (rule content_Rotate_forward)
      finally have "content (Rotate_backward ?n ?q1) = content q"
        by (rule rotate_cancel)
      then show ?thesis
        by (simp only: R2)
    next
      case False
      with k have neg: "k < 0" by simp
      let ?n = "nat (- k)"
      let ?q1 = "Rotate_backward ?n q"
      have R1: "Rotate k q = ?q1"
        using e neg by (rule Rotate_neg)
      have wf1: "cq_wf ?q1"
        using assms cq_wf_Rotate [of q k] by (simp only: R1)
      have ne1: "unat (m_CurrSize ?q1) \<noteq> 0"
        using wf(1) ne by (simp add: size_Rotate_backward)
      then have "\<not> Empty ?q1"
        by (simp add: Empty_unat)
      then have "Rotate (- k) ?q1 = Rotate_forward ?n ?q1"
        using neg by (intro Rotate_pos) simp_all
      then have R2: "Rotate (- k) (Rotate k q) = Rotate_forward ?n ?q1"
        by (simp add: R1)
      have "content (Rotate_forward ?n ?q1) = rotate ?n (content ?q1)"
        using wf1 ne1 by (rule content_Rotate_forward)
      also have "\<dots> = content q"
        using assms ne by (rule content_Rotate_backward)
      finally show ?thesis
        by (simp only: R2)
    qed
  qed
  have L: "unat (Length q) = length (content q)"
    by (rule unat_Length)
  have "content (Rotate (m * int (length (content q))) q) = content q"
    using multiple by (cases "Empty q") (simp_all add: Rotate_Empty)
  then show ?thesis
    unfolding L using there_and_back by simp
qed

theorem C5_Rotate_equivalence_witness:
  "cq_wf \<lparr>m_CircleQ = [30, 10, 20, 40 :: nat], m_Head = 1, m_CurrSize = 2\<rparr> \<and>
   \<not> Empty \<lparr>m_CircleQ = [30, 10, 20, 40 :: nat], m_Head = 1, m_CurrSize = 2\<rparr> \<and>
   content \<lparr>m_CircleQ = [30, 10, 20, 40 :: nat], m_Head = 1, m_CurrSize = 2\<rparr> = [10, 20] \<and>
   content (Rotate (- 3 * 2) \<lparr>m_CircleQ = [30, 10, 20, 40 :: nat], m_Head = 1, m_CurrSize = 2\<rparr>)
     = [10, 20] \<and>
   content (Rotate (- 5) (Rotate 5 \<lparr>m_CircleQ = [30, 10, 20, 40 :: nat], m_Head = 1, m_CurrSize = 2\<rparr>))
     = [10, 20]"
proof -
  have wf: "cq_wf \<lparr>m_CircleQ = [30, 10, 20, 40 :: nat], m_Head = 1, m_CurrSize = 2\<rparr>"
    by (simp add: cq_wf_def cq_inv_def)
  have ne: "\<not> Empty \<lparr>m_CircleQ = [30, 10, 20, 40 :: nat], m_Head = 1, m_CurrSize = 2\<rparr>"
    by (simp add: Empty_def)
  have c: "content \<lparr>m_CircleQ = [30, 10, 20, 40 :: nat], m_Head = 1, m_CurrSize = 2\<rparr> = [10, 20]"
    by (simp add: content_def ring_content_def upt_rec)
  show ?thesis
    using C5_Rotate_equivalence [OF wf, of "- 3" 5] wf ne c by (simp add: Length_def Size_def)
qed

text \<open>
  C6. On a buffer that is not full, \<^verbatim>\<open>PushBack(x)\<close> followed by \<^verbatim>\<open>PopBack()\<close> gives back the
  length it had before, and the logical content is the same list as before: every element
  that could be reached keeps its value and its position.
\<close>

theorem C6_push_pop_back_inverse:
  assumes "cq_wf q" and "\<not> Full q"
  shows "Length (PopBack (PushBack x q)) = Length q \<and>
         content (PopBack (PushBack x q)) = content q"
proof -
  note wf = cq_wfD [OF assms(1)]
  have room: "unat (m_CurrSize q) \<noteq> length (m_CircleQ q)"
    using assms(2) wf(5) by (simp add: Full_unat)
  have "unat (m_CurrSize (PopBack (PushBack x q))) = unat (m_CurrSize q)"
    using wf(1,2) room by (simp add: size_PopBack size_PushBack)
  then have "Length (PopBack (PushBack x q)) = Length q"
    by (rule size_eqI)
  moreover have "content (PopBack (PushBack x q)) = content q"
    using assms by (simp add: content_PopBack content_PushBack)
  ultimately show ?thesis
    by simp
qed

theorem C6_push_pop_back_inverse_witness:
  "cq_wf \<lparr>m_CircleQ = [30, 10, 20 :: nat], m_Head = 1, m_CurrSize = 2\<rparr> \<and>
   \<not> Full \<lparr>m_CircleQ = [30, 10, 20 :: nat], m_Head = 1, m_CurrSize = 2\<rparr> \<and>
   content \<lparr>m_CircleQ = [30, 10, 20 :: nat], m_Head = 1, m_CurrSize = 2\<rparr> = [10, 20] \<and>
   Length (PopBack (PushBack 7 \<lparr>m_CircleQ = [30, 10, 20 :: nat], m_Head = 1, m_CurrSize = 2\<rparr>)) = 2 \<and>
   content (PopBack (PushBack 7 \<lparr>m_CircleQ = [30, 10, 20 :: nat], m_Head = 1, m_CurrSize = 2\<rparr>)) = [10, 20]"
proof -
  have wf: "cq_wf \<lparr>m_CircleQ = [30, 10, 20 :: nat], m_Head = 1, m_CurrSize = 2\<rparr>"
    by (simp add: cq_wf_def cq_inv_def)
  have room: "\<not> Full \<lparr>m_CircleQ = [30, 10, 20 :: nat], m_Head = 1, m_CurrSize = 2\<rparr>"
    by (simp add: Full_def Capacity_def)
  have c: "content \<lparr>m_CircleQ = [30, 10, 20 :: nat], m_Head = 1, m_CurrSize = 2\<rparr> = [10, 20]"
    by (simp add: content_def ring_content_def upt_rec)
  show ?thesis
    using C6_push_pop_back_inverse [OF wf room, of 7] wf room c
    by (simp add: Length_def Size_def)
qed

text \<open>
  C7, first half, and what holds of the second. For \<open>i < length\<close>, \<^verbatim>\<open>operator[](i)\<close> is the
  \<open>i\<close>-th logical element from the front, the element at the front after \<open>i\<close> calls of
  \<^verbatim>\<open>PopHead\<close> on a copy. For every \<^verbatim>\<open>size_t\<close> index \<open>i\<close> the access never fails: the slot is
  \<open>((head + i + N) mod 2 ^ 64) mod N\<close>, a slot of the array, because the sum
  \<^verbatim>\<open>m_Head + nIndex + Capacity()\<close> is a \<^verbatim>\<open>size_t\<close> sum and wraps before \<^verbatim>\<open>% Capacity()\<close>; it is
  \<open>(head + i) mod N\<close> whenever \<open>head + i + N < 2 ^ 64\<close>.
\<close>

theorem C7_index_amended:
  assumes "cq_wf q"
  shows "(unat i < unat (Length q) \<longrightarrow>
            index q i = content q ! unat i \<and> index q i = Head ((PopHead ^^ unat i) q)) \<and>
         unat (index_slot q i) =
           ((unat (m_Head q) + unat i + length (m_CircleQ q)) mod 2 ^ 64) mod length (m_CircleQ q) \<and>
         unat (index_slot q i) < length (m_CircleQ q) \<and>
         (unat (m_Head q) + unat i + length (m_CircleQ q) < 2 ^ 64 \<longrightarrow>
            unat (index_slot q i) = (unat (m_Head q) + unat i) mod length (m_CircleQ q))"
proof -
  note wf = cq_wfD [OF assms]
  have "index q i = content q ! unat i \<and> index q i = Head ((PopHead ^^ unat i) q)"
    if "unat i < unat (Length q)"
  proof -
    have i: "unat i < unat (m_CurrSize q)"
      using that by (simp add: Length_def Size_def)
    have "index q i = content q ! unat i"
      using assms i by (rule index_content)
    moreover have "Head ((PopHead ^^ unat i) q) = content q ! unat i"
      using wf(1) i by (rule Head_PopHead_funpow)
    ultimately show ?thesis
      by simp
  qed
  moreover have "unat (index_slot q i) =
      ((unat (m_Head q) + unat i + length (m_CircleQ q)) mod 2 ^ 64) mod length (m_CircleQ q)"
    using wf(5) by (rule unat_index_slot)
  moreover have "unat (index_slot q i) < length (m_CircleQ q)"
    using wf(4,5) by (simp add: index_slot_def unat_mod_Capacity_less)
  moreover have "unat (index_slot q i) = (unat (m_Head q) + unat i) mod length (m_CircleQ q)"
    if "unat (m_Head q) + unat i + length (m_CircleQ q) < 2 ^ 64"
    using wf(4,5) that by (rule unat_index_slot_small)
  ultimately show ?thesis
    by blast
qed

theorem C7_index_amended_witness:
  "cq_wf \<lparr>m_CircleQ = [30, 10, 20 :: nat], m_Head = 1, m_CurrSize = 3\<rparr> \<and>
   unat (2 :: size_t) < unat (Length \<lparr>m_CircleQ = [30, 10, 20 :: nat], m_Head = 1, m_CurrSize = 3\<rparr>) \<and>
   index \<lparr>m_CircleQ = [30, 10, 20 :: nat], m_Head = 1, m_CurrSize = 3\<rparr> 2 = 30 \<and>
   Head ((PopHead ^^ unat (2 :: size_t)) \<lparr>m_CircleQ = [30, 10, 20 :: nat], m_Head = 1, m_CurrSize = 3\<rparr>) = 30 \<and>
   unat (m_Head \<lparr>m_CircleQ = [30, 10, 20 :: nat], m_Head = 1, m_CurrSize = 3\<rparr>) + unat (2 :: size_t) +
     length (m_CircleQ \<lparr>m_CircleQ = [30, 10, 20 :: nat], m_Head = 1, m_CurrSize = 3\<rparr>) < 2 ^ 64 \<and>
   unat (index_slot \<lparr>m_CircleQ = [30, 10, 20 :: nat], m_Head = 1, m_CurrSize = 3\<rparr> 2) = 0"
proof -
  have wf: "cq_wf \<lparr>m_CircleQ = [30, 10, 20 :: nat], m_Head = 1, m_CurrSize = 3\<rparr>"
    by (simp add: cq_wf_def cq_inv_def)
  have c: "content \<lparr>m_CircleQ = [30, 10, 20 :: nat], m_Head = 1, m_CurrSize = 3\<rparr> = [10, 20, 30]"
    by (simp add: content_def ring_content_def upt_rec)
  show ?thesis
    using C7_index_amended [OF wf, of 2] wf c by (simp add: Length_def Size_def)
qed

text \<open>
  C7 as stated fails at the index \<open>2 ^ 64 - 1\<close> (what \<^verbatim>\<open>q[-1]\<close> passes): on a buffer of
  capacity 3 with head 0 the access reads slot 2, and \<open>(0 + (2 ^ 64 - 1)) mod 3\<close> is 0.
\<close>

theorem C7_index_counterexample:
  "unat (Length \<lparr>m_CircleQ = [10, 20, 30 :: nat], m_Head = 0, m_CurrSize = 3\<rparr>)
     \<le> unat (18446744073709551615 :: size_t) \<and>
   unat (index_slot \<lparr>m_CircleQ = [10, 20, 30 :: nat], m_Head = 0, m_CurrSize = 3\<rparr>
     18446744073709551615) \<noteq>
   (unat (m_Head \<lparr>m_CircleQ = [10, 20, 30 :: nat], m_Head = 0, m_CurrSize = 3\<rparr>) +
      unat (18446744073709551615 :: size_t)) mod
     length (m_CircleQ \<lparr>m_CircleQ = [10, 20, 30 :: nat], m_Head = 0, m_CurrSize = 3\<rparr>) \<and>
   unat (index_slot \<lparr>m_CircleQ = [10, 20, 30 :: nat], m_Head = 0, m_CurrSize = 3\<rparr>
     18446744073709551615) = 2 \<and>
   index \<lparr>m_CircleQ = [10, 20, 30 :: nat], m_Head = 0, m_CurrSize = 3\<rparr> 18446744073709551615 = 30 \<and>
   m_CircleQ \<lparr>m_CircleQ = [10, 20, 30 :: nat], m_Head = 0, m_CurrSize = 3\<rparr> !
     ((unat (m_Head \<lparr>m_CircleQ = [10, 20, 30 :: nat], m_Head = 0, m_CurrSize = 3\<rparr>) +
        unat (18446744073709551615 :: size_t)) mod
       length (m_CircleQ \<lparr>m_CircleQ = [10, 20, 30 :: nat], m_Head = 0, m_CurrSize = 3\<rparr>)) = 10"
  by (simp add: Length_def Size_def index_def index_slot_def Capacity_def array_get_def)

text \<open>
  C8. \<^verbatim>\<open>Length()\<close> is the current number of elements: on every state reached from the
  fresh buffer it is the number of elements pushed and neither popped nor overwritten
  (counted by \<open>element_count\<close>), and it is the length of the logical content.
\<close>

theorem C8_Length_is_element_count:
  assumes "0 < N" and "2 * N \<le> 2 ^ 64"
  shows "unat (Length (run ops (CacheQueue_new N d))) = element_count N ops 0 \<and>
         unat (Length (run ops (CacheQueue_new N d))) =
           length (content (run ops (CacheQueue_new N d)))"
proof -
  let ?q = "CacheQueue_new N d"
  have N: "length (m_CircleQ ?q) = N" and s: "unat (m_CurrSize ?q) = 0"
    by (simp_all add: CacheQueue_new_def)
  have "N < 2 ^ 64"
    using assms by simp
  then have "cq_inv ?q"
    using assms(1) by (intro cq_inv_new)
  then have "unat (m_CurrSize (run ops ?q)) =
      element_count (length (m_CircleQ ?q)) ops (unat (m_CurrSize ?q))"
    using assms(2) N by (intro size_run) simp_all
  then show ?thesis
    by (simp add: N s Length_def Size_def length_content)
qed

theorem C8_Length_is_element_count_witness:
  "(0::nat) < 3 \<and> 2 * (3::nat) \<le> 2 ^ 64 \<and>
   element_count 3 [OpPushBack (1::nat), OpPushBack 2, OpPushBack 3, OpPushBack 4, OpPopHead,
     OpPushHead 9, OpRotate 1, OpPopBack] 0 = 2 \<and>
   unat (Length (run [OpPushBack (1::nat), OpPushBack 2, OpPushBack 3, OpPushBack 4, OpPopHead,
     OpPushHead 9, OpRotate 1, OpPopBack] (CacheQueue_new 3 0))) = 2 \<and>
   length (content (run [OpPushBack (1::nat), OpPushBack 2, OpPushBack 3, OpPushBack 4, OpPopHead,
     OpPushHead 9, OpRotate 1, OpPopBack] (CacheQueue_new 3 0))) = 2"
proof -
  have "element_count 3 [OpPushBack (1::nat), OpPushBack 2, OpPushBack 3, OpPushBack 4, OpPopHead,
     OpPushHead 9, OpRotate 1, OpPopBack] 0 = 2"
    by simp
  then show ?thesis
    using C8_Length_is_element_count [of 3 "[OpPushBack (1::nat), OpPushBack 2, OpPushBack 3,
      OpPushBack 4, OpPopHead, OpPushHead 9, OpRotate 1, OpPopBack]" 0]
    by simp
qed

text \<open>
  C9. \<^verbatim>\<open>Rotate(k)\<close> leaves \<^verbatim>\<open>Length()\<close> as it was, for every state of the class invariant
  (empty, partly filled or full) and every \<open>k\<close>, positive, negative or zero.
\<close>

theorem C9_Rotate_keeps_Length:
  assumes "cq_inv q"
  shows "Length (Rotate k q) = Length q"
proof (cases "Empty q \<or> k = 0")
  case True
  then show ?thesis
    by (auto simp: Rotate_def)
next
  case False
  then have ne: "unat (m_CurrSize q) \<noteq> 0"
    by (simp add: Empty_unat)
  have "unat (m_CurrSize (Rotate k q)) = unat (m_CurrSize q)"
    using False assms ne
    by (simp add: Rotate_def Let_def size_Rotate_forward size_Rotate_backward)
  then show ?thesis
    by (rule size_eqI)
qed

theorem C9_Rotate_keeps_Length_witness:
  "cq_inv \<lparr>m_CircleQ = [30, 10, 20 :: nat], m_Head = 1, m_CurrSize = 2\<rparr> \<and>
   Length (Rotate 5 \<lparr>m_CircleQ = [30, 10, 20 :: nat], m_Head = 1, m_CurrSize = 2\<rparr>) = 2 \<and>
   Length (Rotate (- 4) \<lparr>m_CircleQ = [30, 10, 20 :: nat], m_Head = 1, m_CurrSize = 2\<rparr>) = 2 \<and>
   Length (Rotate 0 \<lparr>m_CircleQ = [30, 10, 20 :: nat], m_Head = 1, m_CurrSize = 2\<rparr>) = 2 \<and>
   cq_inv \<lparr>m_CircleQ = [30, 10, 20 :: nat], m_Head = 0, m_CurrSize = 0\<rparr> \<and>
   Length (Rotate 3 \<lparr>m_CircleQ = [30, 10, 20 :: nat], m_Head = 0, m_CurrSize = 0\<rparr>) = 0 \<and>
   cq_inv \<lparr>m_CircleQ = [30, 10, 20 :: nat], m_Head = 2, m_CurrSize = 3\<rparr> \<and>
   Length (Rotate (- 7) \<lparr>m_CircleQ = [30, 10, 20 :: nat], m_Head = 2, m_CurrSize = 3\<rparr>) = 3"
proof -
  have a: "cq_inv \<lparr>m_CircleQ = [30, 10, 20 :: nat], m_Head = 1, m_CurrSize = 2\<rparr>"
    and b: "cq_inv \<lparr>m_CircleQ = [30, 10, 20 :: nat], m_Head = 0, m_CurrSize = 0\<rparr>"
    and c: "cq_inv \<lparr>m_CircleQ = [30, 10, 20 :: nat], m_Head = 2, m_CurrSize = 3\<rparr>"
    by (simp_all add: cq_inv_def)
  show ?thesis
    using a b c
      C9_Rotate_keeps_Length [OF a, of 5] C9_Rotate_keeps_Length [OF a, of "- 4"]
      C9_Rotate_keeps_Length [OF a, of 0] C9_Rotate_keeps_Length [OF b, of 3]
      C9_Rotate_keeps_Length [OF c, of "- 7"]
    by (simp add: Length_def Size_def)
qed

text \<open>
  C10. With \<open>N > 0\<close>, every slot the class computes is a slot of the array: the slot of
  \<^verbatim>\<open>Head()\<close>, of \<^verbatim>\<open>Back()\<close>, the value of \<^verbatim>\<open>BackOff()\<close> (the same slot), the slot of
  \<^verbatim>\<open>operator[](i)\<close> for every
  \<open>i\<close>, and the slot \<^verbatim>\<open>PushHead\<close> and \<^verbatim>\<open>PushBack\<close> store to (the storage after the push is the
  storage before with that one slot written). On an empty buffer \<^verbatim>\<open>Back()\<close> reads slot
  \<open>(head + N - 1) mod N\<close>.
\<close>

theorem C10_slots_in_range:
  assumes "cq_inv q"
  shows "unat (Head_slot q) < length (m_CircleQ q) \<and>
         unat (Back_slot q) < length (m_CircleQ q) \<and>
         unat (BackOff q) < length (m_CircleQ q) \<and>
         BackOff q = Back_slot q \<and>
         unat (index_slot q i) < length (m_CircleQ q) \<and>
         unat (PushHead_slot q) < length (m_CircleQ q) \<and>
         unat (PushBack_slot q) < length (m_CircleQ q) \<and>
         m_CircleQ (PushHead u q) = (m_CircleQ q)[unat (PushHead_slot q) := u] \<and>
         m_CircleQ (PushBack u q) = (m_CircleQ q)[unat (PushBack_slot q) := u] \<and>
         (cq_wf q \<and> Empty q \<longrightarrow>
            unat (Back_slot q) =
              (unat (m_Head q) + length (m_CircleQ q) - 1) mod length (m_CircleQ q))"
proof -
  have N: "0 < length (m_CircleQ q)" "length (m_CircleQ q) < 2 ^ 64"
    and h: "unat (m_Head q) < length (m_CircleQ q)"
    using assms by (simp_all add: cq_inv_def)
  have "unat (Head_slot q) < length (m_CircleQ q)"
    using h by (simp add: Head_slot_def)
  moreover have "unat (Back_slot q) < length (m_CircleQ q)"
    using N by (rule unat_Back_slot_less)
  moreover have "unat (BackOff q) < length (m_CircleQ q)"
    using N by (simp only: BackOff_eq_Back_slot unat_Back_slot_less)
  moreover have "BackOff q = Back_slot q"
    by (rule BackOff_eq_Back_slot)
  moreover have "unat (index_slot q i) < length (m_CircleQ q)"
    using N by (rule unat_index_slot_less)
  moreover have "unat (PushHead_slot q) < length (m_CircleQ q)"
    using N by (rule unat_PushHead_slot_less)
  moreover have "unat (PushBack_slot q) < length (m_CircleQ q)"
    using assms by (rule unat_PushBack_slot_less)
  moreover have "m_CircleQ (PushHead u q) = (m_CircleQ q)[unat (PushHead_slot q) := u]"
    by (rule storage_PushHead)
  moreover have "m_CircleQ (PushBack u q) = (m_CircleQ q)[unat (PushBack_slot q) := u]"
    by (rule storage_PushBack)
  moreover have "unat (Back_slot q) =
      (unat (m_Head q) + length (m_CircleQ q) - 1) mod length (m_CircleQ q)"
    if "cq_wf q" and "Empty q"
    using that by (simp add: unat_Back_slot Empty_unat)
  ultimately show ?thesis
    by blast
qed

theorem C10_slots_in_range_witness:
  "cq_inv \<lparr>m_CircleQ = [30, 10, 20 :: nat], m_Head = 1, m_CurrSize = 0\<rparr> \<and>
   cq_wf \<lparr>m_CircleQ = [30, 10, 20 :: nat], m_Head = 1, m_CurrSize = 0\<rparr> \<and>
   Empty \<lparr>m_CircleQ = [30, 10, 20 :: nat], m_Head = 1, m_CurrSize = 0\<rparr> \<and>
   unat (Back_slot \<lparr>m_CircleQ = [30, 10, 20 :: nat], m_Head = 1, m_CurrSize = 0\<rparr>) = 0 \<and>
   unat (BackOff \<lparr>m_CircleQ = [30, 10, 20 :: nat], m_Head = 1, m_CurrSize = 0\<rparr>) < 3 \<and>
   unat (index_slot \<lparr>m_CircleQ = [30, 10, 20 :: nat], m_Head = 1, m_CurrSize = 0\<rparr>
     18446744073709551615) < 3 \<and>
   unat (PushHead_slot \<lparr>m_CircleQ = [30, 10, 20 :: nat], m_Head = 1, m_CurrSize = 0\<rparr>) < 3 \<and>
   unat (PushBack_slot \<lparr>m_CircleQ = [30, 10, 20 :: nat], m_Head = 1, m_CurrSize = 0\<rparr>) < 3"
proof -
  have inv: "cq_inv \<lparr>m_CircleQ = [30, 10, 20 :: nat], m_Head = 1, m_CurrSize = 0\<rparr>"
    by (simp add: cq_inv_def)
  then have wf: "cq_wf \<lparr>m_CircleQ = [30, 10, 20 :: nat], m_Head = 1, m_CurrSize = 0\<rparr>"
    by (simp add: cq_wf_def)
  have e: "Empty \<lparr>m_CircleQ = [30, 10, 20 :: nat], m_Head = 1, m_CurrSize = 0\<rparr>"
    by (simp add: Empty_def)
  show ?thesis
    using C10_slots_in_range [OF inv, of 18446744073709551615] inv wf e
    by (simp add: numeral_3_eq_3)
qed

end
